theory Spec2Isabelle
  imports Complex_Main "HOL-Library.Word" "HOL-Library.Multiset" "HOL-Library.Code_Target_Numeral"
begin

section \<open>Data model (graph.h)\<close>

text \<open>
  The C structures become records. A fixed-size C array is a total function from the
  index (an \<open>int\<close>, as in the source) to the element; the bounds \<open>MAX_NODES\<close> and
  \<open>MAX_EDGES_PER_NODE\<close> say which indices exist in memory. The record is polymorphic
  in the representation \<open>'f\<close> of the C type \<open>float\<close>: the store never computes with
  coordinates or weights, the persistence code sees their 32-bit pattern (there \<open>'f\<close>
  is \<open>32 word\<close>), and the search computes with them (there \<open>'f\<close> is \<open>c_float\<close>, the
  single-precision numbers with their rounding, infinities and NaN).
\<close>

definition MAX_NODES :: int where "MAX_NODES = 1000"
definition MAX_EDGES_PER_NODE :: int where "MAX_EDGES_PER_NODE = 20"
definition MAX_NAME_LENGTH :: nat where "MAX_NAME_LENGTH = 128"

type_synonym byte = "8 word"

record 'f Node =
  node_id :: int
  name :: "byte list"
  node_x :: 'f
  node_y :: 'f
  active :: bool

record 'f Edge =
  from_e :: int
  to_e :: int
  weight :: 'f
  eactive :: bool

record 'f Graph =
  nodes :: "int \<Rightarrow> 'f Node"
  nodeCount :: int
  edges :: "int \<Rightarrow> int \<Rightarrow> 'f Edge"
  edgeCounts :: "int \<Rightarrow> int"

record 'f PathResult =
  path_nodes :: "int list"
  path_length :: int
  totalCost :: 'f
  found :: bool

text \<open>\<open>for (int i = lo; i < n; i++) s = body i s\<close>, for a bound the body does not change.\<close>

function for_loop :: "int \<Rightarrow> int \<Rightarrow> (int \<Rightarrow> 's \<Rightarrow> 's) \<Rightarrow> 's \<Rightarrow> 's" where
  "for_loop i n body s = (if i < n then for_loop (i + 1) n body (body i s) else s)"
  by pat_completeness auto
termination
  by (relation "measure (\<lambda>(i, n, body, s). nat (n - i))") auto

declare for_loop.simps [simp del]

section \<open>Single-precision numbers (the C type float)\<close>

text \<open>
  A \<open>float\<close> is an IEEE 754 binary32 number: a finite value (a real number \<open>m * 2 ^ e\<close>
  with an integer \<open>m\<close> of less than 25 bits and \<open>- 149 \<le> e \<le> 104\<close>), one of the two
  infinities, or NaN. The two zeros are one value: they compare equal and no operation
  of the search tells them apart. Arithmetic is evaluated in single precision
  (\<open>FLT_EVAL_METHOD\<close> 0, no contraction of a product and a sum): each operation returns
  the exact result rounded to the nearest \<open>float\<close>, ties to the even significand.

  The type below has a finite value \<open>Fin r\<close> for every real \<open>r\<close>. The \<open>float\<close>s among
  them are those that rounding leaves as they are, \<open>round_f32 r = Fin r\<close>, and a
  rounded result is one of these (lemma \<open>round_f32_idem\<close>); what is proved of all
  values of the type holds of the \<open>float\<close>s.
\<close>

datatype c_float = MInf | Fin real | PInf | NaN

definition FLT_MAX :: real where
  "FLT_MAX = 340282346638528859811704183484516925440"

text \<open>\<open>ilog2 x\<close> is the exponent \<open>k\<close> with \<open>2 ^ k \<le> x < 2 ^ (k + 1)\<close>, for a positive \<open>x\<close>.\<close>

function ilog2 :: "real \<Rightarrow> int" where
  "ilog2 x =
     (if x \<le> 0 then 0
      else if x < 1 then ilog2 (2 * x) - 1
      else if 2 \<le> x then ilog2 (x / 2) + 1
      else 0)"
  by pat_completeness auto
termination
proof (relation "measure (\<lambda>x. nat \<bar>\<lfloor>log 2 x\<rfloor>\<bar>)", goal_cases)
  case 1
  show ?case by simp
next
  case (2 x)
  then have x: "0 < x" "x < 1" by auto
  have "log 2 (2 * x) = 1 + log 2 x" using x by (simp add: log_mult)
  moreover have "log 2 x < 0" using x by simp
  then have "\<lfloor>log 2 x\<rfloor> \<le> - 1" by linarith
  ultimately show ?case by simp
next
  case (3 x)
  then have x: "2 \<le> x" by auto
  have "log 2 (x / 2) = log 2 x - 1" using x by (simp add: log_divide)
  moreover have "1 \<le> log 2 x" using x by (simp add: le_log_iff)
  then have "1 \<le> \<lfloor>log 2 x\<rfloor>" by linarith
  ultimately show ?case by simp
qed

declare ilog2.simps [simp del]

text \<open>
  Rounding. The spacing of the \<open>float\<close>s around \<open>x\<close> is \<open>2\<close> to the power \<open>f32_exp x\<close>
  (24 significant bits, and the fixed spacing \<open>2 ^ - 149\<close> of the subnormal numbers);
  \<open>f32_nearest\<close> rounds to the nearest multiple of the spacing as if the exponent had no
  upper bound, and a result beyond \<open>FLT_MAX\<close> becomes an infinity.
\<close>

definition round_half_even :: "real \<Rightarrow> int" where
  "round_half_even q =
     (let f = \<lfloor>q\<rfloor>; d = q - of_int f
      in if d < 1 / 2 then f else if 1 / 2 < d then f + 1 else if even f then f else f + 1)"

definition f32_exp :: "real \<Rightarrow> int" where
  "f32_exp x = max (ilog2 \<bar>x\<bar> - 23) (- 149)"

definition f32_nearest :: "real \<Rightarrow> real" where
  "f32_nearest x =
     (if x = 0 then 0
      else of_int (round_half_even (x / 2 powi f32_exp x)) * 2 powi f32_exp x)"

definition round_f32 :: "real \<Rightarrow> c_float" where
  "round_f32 x =
     (let r = f32_nearest x
      in if FLT_MAX < r then PInf else if r < - FLT_MAX then MInf else Fin r)"

text \<open>
  The comparisons \<open>a < b\<close> and \<open>a <= b\<close> of C: false whenever an operand is NaN.
\<close>

fun flt :: "c_float \<Rightarrow> c_float \<Rightarrow> bool" where
  "flt NaN b = False"
| "flt a NaN = False"
| "flt PInf b = False"
| "flt a MInf = False"
| "flt MInf b = True"
| "flt a PInf = True"
| "flt (Fin x) (Fin y) = (x < y)"

fun fle :: "c_float \<Rightarrow> c_float \<Rightarrow> bool" where
  "fle NaN b = False"
| "fle a NaN = False"
| "fle MInf b = True"
| "fle a PInf = True"
| "fle PInf b = False"
| "fle a MInf = False"
| "fle (Fin x) (Fin y) = (x \<le> y)"

text \<open>The operations \<open>+\<close>, unary and binary \<open>-\<close>, \<open>*\<close>, \<open>fabsf\<close>, \<open>sqrtf\<close> and \<open>fmaxf\<close>.\<close>

fun fadd :: "c_float \<Rightarrow> c_float \<Rightarrow> c_float" where
  "fadd NaN b = NaN"
| "fadd a NaN = NaN"
| "fadd PInf MInf = NaN"
| "fadd MInf PInf = NaN"
| "fadd PInf b = PInf"
| "fadd a PInf = PInf"
| "fadd MInf b = MInf"
| "fadd a MInf = MInf"
| "fadd (Fin x) (Fin y) = round_f32 (x + y)"

fun fneg :: "c_float \<Rightarrow> c_float" where
  "fneg NaN = NaN"
| "fneg PInf = MInf"
| "fneg MInf = PInf"
| "fneg (Fin x) = Fin (- x)"

definition fsub :: "c_float \<Rightarrow> c_float \<Rightarrow> c_float" where
  "fsub a b = fadd a (fneg b)"

fun is_negative :: "c_float \<Rightarrow> bool" where
  "is_negative MInf = True"
| "is_negative (Fin x) = (x < 0)"
| "is_negative PInf = False"
| "is_negative NaN = False"

fun fmul :: "c_float \<Rightarrow> c_float \<Rightarrow> c_float" where
  "fmul NaN b = NaN"
| "fmul a NaN = NaN"
| "fmul (Fin x) (Fin y) = round_f32 (x * y)"
| "fmul a b =
     (if a = Fin 0 \<or> b = Fin 0 then NaN
      else if is_negative a = is_negative b then PInf else MInf)"

fun fabsf :: "c_float \<Rightarrow> c_float" where
  "fabsf NaN = NaN"
| "fabsf PInf = PInf"
| "fabsf MInf = PInf"
| "fabsf (Fin x) = Fin \<bar>x\<bar>"

fun sqrtf :: "c_float \<Rightarrow> c_float" where
  "sqrtf NaN = NaN"
| "sqrtf PInf = PInf"
| "sqrtf MInf = NaN"
| "sqrtf (Fin x) = (if x < 0 then NaN else round_f32 (sqrt x))"

text \<open>
  To run the model: the integer square root, and with it the number next to \<open>sqrt x\<close>
  without recourse to real square roots. Lemma \<open>sqrtf_code\<close> shows that \<open>sqrtf\<close> returns
  it.
\<close>

function isqrt :: "int \<Rightarrow> int" where
  "isqrt n =
     (if n < 1 then 0
      else let r = 2 * isqrt (n div 4) in if (r + 1) * (r + 1) \<le> n then r + 1 else r)"
  by pat_completeness auto
termination
  by (relation "measure nat") auto

declare isqrt.simps [simp del]

definition sqrt_nearest :: "real \<Rightarrow> real" where
  "sqrt_nearest x =
     (let e = max (ilog2 x div 2 - 23) (- 149);
          y = x / 2 powi (2 * e);
          n = isqrt \<lfloor>y\<rfloor>;
          h = (of_int n + 1 / 2) * (of_int n + 1 / 2)
      in of_int (if y < h then n else if h < y then n + 1 else if even n then n else n + 1)
           * 2 powi e)"

definition fmaxf :: "c_float \<Rightarrow> c_float \<Rightarrow> c_float" where
  "fmaxf a b = (if a = NaN then b else if b = NaN then a else if flt a b then b else a)"

text \<open>
  For the proofs the type is ordered linearly, NaN after every number; on numbers the
  order is the one the C comparisons test. The value \<open>0\<close> is the number zero (the
  \<open>float\<close> of a zeroed memory block).
\<close>

instantiation c_float :: "{zero, linorder}"
begin

definition zero_c_float :: c_float where
  "zero_c_float = Fin 0"

definition less_eq_c_float :: "c_float \<Rightarrow> c_float \<Rightarrow> bool" where
  "less_eq_c_float a b \<longleftrightarrow> b = NaN \<or> fle a b"

definition less_c_float :: "c_float \<Rightarrow> c_float \<Rightarrow> bool" where
  "less_c_float a b \<longleftrightarrow> (a \<noteq> NaN \<and> b = NaN) \<or> flt a b"

instance
proof
  fix x y z :: c_float
  show "x < y \<longleftrightarrow> x \<le> y \<and> \<not> y \<le> x"
    by (cases x; cases y) (auto simp: less_eq_c_float_def less_c_float_def)
  show "x \<le> x"
    by (cases x) (auto simp: less_eq_c_float_def)
  show "x \<le> y \<Longrightarrow> y \<le> z \<Longrightarrow> x \<le> z"
    by (cases x; cases y; cases z) (auto simp: less_eq_c_float_def)
  show "x \<le> y \<Longrightarrow> y \<le> x \<Longrightarrow> x = y"
    by (cases x; cases y) (auto simp: less_eq_c_float_def)
  show "x \<le> y \<or> y \<le> x"
    by (cases x; cases y) (auto simp: less_eq_c_float_def)
qed

end

section \<open>Graph store (graph.c)\<close>

definition zero_node :: "'f::zero Node" where
  "zero_node = \<lparr>node_id = 0, name = replicate MAX_NAME_LENGTH 0, node_x = 0, node_y = 0,
     active = False\<rparr>"

definition zero_edge :: "'f::zero Edge" where
  "zero_edge = \<lparr>from_e = 0, to_e = 0, weight = 0, eactive = False\<rparr>"

definition graph_init :: "'f::zero Graph" where
  "graph_init = \<lparr>nodes = (\<lambda>_. zero_node), nodeCount = 0, edges = (\<lambda>_ _. zero_edge),
     edgeCounts = (\<lambda>_. 0)\<rparr>"

text \<open>
  \<open>strncpy(node->name, name, MAX_NAME_LENGTH - 1)\<close> followed by the terminating zero:
  \<open>nm\<close> is the content of the C string (the bytes before its first zero byte).
\<close>

definition copy_name :: "byte list \<Rightarrow> byte list" where
  "copy_name nm =
     take (MAX_NAME_LENGTH - 1) (nm @ replicate (MAX_NAME_LENGTH - 1) 0) @ [0]"

definition graph_add_node :: "'f Graph \<Rightarrow> byte list \<Rightarrow> 'f \<Rightarrow> 'f \<Rightarrow> int \<times> 'f Graph" where
  "graph_add_node g nm x y =
     (if nodeCount g \<ge> MAX_NODES then (- 1, g)
      else
        let i = nodeCount g;
            node = \<lparr>node_id = i, name = copy_name nm, node_x = x, node_y = y, active = True\<rparr>
        in (i, g\<lparr>nodes := (nodes g)(i := node), nodeCount := nodeCount g + 1\<rparr>))"

definition set_edge_inactive :: "int \<Rightarrow> int \<Rightarrow> 'f Graph \<Rightarrow> 'f Graph" where
  "set_edge_inactive i j g =
     g\<lparr>edges := (edges g)(i := (edges g i)(j := (edges g i j)\<lparr>eactive := False\<rparr>))\<rparr>"

definition remove_node_row :: "int \<Rightarrow> int \<Rightarrow> 'f Graph \<Rightarrow> 'f Graph" where
  "remove_node_row nodeId i g =
     (if i = nodeId then g
      else for_loop 0 (edgeCounts g i)
             (\<lambda>j g'. if to_e (edges g' i j) = nodeId then set_edge_inactive i j g' else g') g)"

definition graph_remove_node :: "'f Graph \<Rightarrow> int \<Rightarrow> bool \<times> 'f Graph" where
  "graph_remove_node g nodeId =
     (if nodeId < 0 \<or> nodeId \<ge> nodeCount g then (False, g)
      else
        let g1 = g\<lparr>nodes := (nodes g)(nodeId := (nodes g nodeId)\<lparr>active := False\<rparr>)\<rparr>;
            g2 = g1\<lparr>edgeCounts := (edgeCounts g1)(nodeId := 0)\<rparr>
        in (True, for_loop 0 (nodeCount g2) (remove_node_row nodeId) g2))"

definition graph_get_node :: "'f Graph \<Rightarrow> int \<Rightarrow> 'f Node option" where
  "graph_get_node g nodeId =
     (if nodeId < 0 \<or> nodeId \<ge> nodeCount g then None
      else if \<not> active (nodes g nodeId) then None
      else Some (nodes g nodeId))"

function has_edge_from :: "'f Graph \<Rightarrow> int \<Rightarrow> int \<Rightarrow> int \<Rightarrow> bool" where
  "has_edge_from g frm t i =
     (if i < edgeCounts g frm
      then (if to_e (edges g frm i) = t \<and> eactive (edges g frm i) then True
            else has_edge_from g frm t (i + 1))
      else False)"
  by pat_completeness auto
termination
  by (relation "measure (\<lambda>(g, frm, t, i). nat (edgeCounts g frm - i))") auto

declare has_edge_from.simps [simp del]

definition graph_has_edge :: "'f Graph \<Rightarrow> int \<Rightarrow> int \<Rightarrow> bool" where
  "graph_has_edge g frm t =
     (if frm < 0 \<or> frm \<ge> nodeCount g then False else has_edge_from g frm t 0)"

definition graph_add_edge :: "'f Graph \<Rightarrow> int \<Rightarrow> int \<Rightarrow> 'f \<Rightarrow> bool \<times> 'f Graph" where
  "graph_add_edge g frm t w =
     (if frm < 0 \<or> frm \<ge> nodeCount g then (False, g)
      else if t < 0 \<or> t \<ge> nodeCount g then (False, g)
      else if edgeCounts g frm \<ge> MAX_EDGES_PER_NODE then (False, g)
      else if graph_has_edge g frm t then (False, g)
      else
        let idx = edgeCounts g frm;
            e = \<lparr>from_e = frm, to_e = t, weight = w, eactive = True\<rparr>
        in (True, g\<lparr>edges := (edges g)(frm := (edges g frm)(idx := e)),
                     edgeCounts := (edgeCounts g)(frm := edgeCounts g frm + 1)\<rparr>))"

text \<open>
  \<open>graph_get_neighbors\<close>: the output buffer is \<open>None\<close> for a null pointer; the loop stops
  at the end of the row or when \<open>maxNeighbors\<close> entries are written.
\<close>

function neighbors_loop ::
  "'f Graph \<Rightarrow> int \<Rightarrow> int \<Rightarrow> int \<Rightarrow> int \<Rightarrow> (int \<Rightarrow> int) \<Rightarrow> int \<times> (int \<Rightarrow> int)" where
  "neighbors_loop g nodeId maxNeighbors i cnt buf =
     (if i < edgeCounts g nodeId \<and> cnt < maxNeighbors
      then (if eactive (edges g nodeId i) \<and> active (nodes g (to_e (edges g nodeId i)))
            then neighbors_loop g nodeId maxNeighbors (i + 1) (cnt + 1)
                   (buf(cnt := to_e (edges g nodeId i)))
            else neighbors_loop g nodeId maxNeighbors (i + 1) cnt buf)
      else (cnt, buf))"
  by pat_completeness auto
termination
  by (relation "measure (\<lambda>(g, nodeId, m, i, c, b). nat (edgeCounts g nodeId - i))") auto

declare neighbors_loop.simps [simp del]

definition graph_get_neighbors ::
  "'f Graph \<Rightarrow> int \<Rightarrow> (int \<Rightarrow> int) option \<Rightarrow> int \<Rightarrow> int \<times> (int \<Rightarrow> int) option" where
  "graph_get_neighbors g nodeId neighbors maxNeighbors =
     (case neighbors of
        None \<Rightarrow> (0, None)
      | Some buf \<Rightarrow>
          if nodeId < 0 \<or> nodeId \<ge> nodeCount g then (0, Some buf)
          else (case neighbors_loop g nodeId maxNeighbors 0 0 buf of
                  (cnt, buf') \<Rightarrow> (cnt, Some buf')))"

section \<open>Priority queue (astar.c)\<close>

text \<open>
  The heap storage is a function from the slot index to the entry; \<open>pq_size\<close> slots are
  in use. Slot indices, the size and the capacity are never negative in the source
  (the size only moves by guarded increments and decrements), so they are \<open>nat\<close>. The
  scores are \<open>float\<close>s and are compared as C compares them.
\<close>

record 'a PQNode =
  pq_nodeId :: int
  pq_fScore :: 'a

record 'a PriorityQueue =
  pq_nodes :: "nat \<Rightarrow> 'a PQNode"
  pq_size :: nat
  pq_capacity :: nat

definition pq_swap :: "(nat \<Rightarrow> 'a PQNode) \<Rightarrow> nat \<Rightarrow> nat \<Rightarrow> (nat \<Rightarrow> 'a PQNode)" where
  "pq_swap a i j = a(i := a j, j := a i)"

function pq_heapify_up :: "c_float PriorityQueue \<Rightarrow> nat \<Rightarrow> c_float PriorityQueue" where
  "pq_heapify_up pq idx =
     (if idx > 0
      then (if flt (pq_fScore (pq_nodes pq idx)) (pq_fScore (pq_nodes pq ((idx - 1) div 2)))
            then pq_heapify_up (pq\<lparr>pq_nodes := pq_swap (pq_nodes pq) idx ((idx - 1) div 2)\<rparr>)
                   ((idx - 1) div 2)
            else pq)
      else pq)"
  by pat_completeness auto
termination
  by (relation "measure (\<lambda>(pq, idx). idx)") auto

declare pq_heapify_up.simps [simp del]

definition smallest_of :: "c_float PriorityQueue \<Rightarrow> nat \<Rightarrow> nat" where
  "smallest_of pq idx =
     (let smallest = idx;
          left = 2 * idx + 1;
          right = 2 * idx + 2;
          smallest = (if left < pq_size pq
                         \<and> flt (pq_fScore (pq_nodes pq left)) (pq_fScore (pq_nodes pq smallest))
                      then left else smallest);
          smallest = (if right < pq_size pq
                         \<and> flt (pq_fScore (pq_nodes pq right)) (pq_fScore (pq_nodes pq smallest))
                      then right else smallest)
      in smallest)"

function pq_heapify_down :: "c_float PriorityQueue \<Rightarrow> nat \<Rightarrow> c_float PriorityQueue" where
  "pq_heapify_down pq idx =
     (if smallest_of pq idx \<noteq> idx
      then pq_heapify_down (pq\<lparr>pq_nodes := pq_swap (pq_nodes pq) idx (smallest_of pq idx)\<rparr>)
             (smallest_of pq idx)
      else pq)"
  by pat_completeness auto
termination
  by (relation "measure (\<lambda>(pq, idx). pq_size pq - idx)")
     (auto simp: smallest_of_def Let_def split: if_splits)

declare pq_heapify_down.simps [simp del]

definition pq_push ::
  "c_float PriorityQueue \<Rightarrow> int \<Rightarrow> c_float \<Rightarrow> bool \<times> c_float PriorityQueue" where
  "pq_push pq n f =
     (if pq_size pq \<ge> pq_capacity pq then (False, pq)
      else
        let pq1 = pq\<lparr>pq_nodes := (pq_nodes pq)(pq_size pq := \<lparr>pq_nodeId = n, pq_fScore = f\<rparr>)\<rparr>;
            pq2 = pq_heapify_up pq1 (pq_size pq1)
        in (True, pq2\<lparr>pq_size := pq_size pq2 + 1\<rparr>))"

text \<open>\<open>pq_pop\<close>: \<open>None\<close> is the return value false (the outputs are not written).\<close>

definition pq_pop ::
  "c_float PriorityQueue \<Rightarrow> (int \<times> c_float \<times> c_float PriorityQueue) option" where
  "pq_pop pq =
     (if pq_size pq = 0 then None
      else
        let n = pq_nodeId (pq_nodes pq 0);
            f = pq_fScore (pq_nodes pq 0);
            pq1 = pq\<lparr>pq_size := pq_size pq - 1\<rparr>
        in Some (n, f,
             if pq_size pq1 > 0
             then pq_heapify_down
                    (pq1\<lparr>pq_nodes := (pq_nodes pq1)(0 := pq_nodes pq1 (pq_size pq1))\<rparr>) 0
             else pq1))"

definition pq_empty :: "'a PriorityQueue \<Rightarrow> bool" where
  "pq_empty pq \<longleftrightarrow> pq_size pq = 0"

function decrease_from ::
  "c_float PriorityQueue \<Rightarrow> int \<Rightarrow> c_float \<Rightarrow> nat \<Rightarrow> c_float PriorityQueue" where
  "decrease_from pq n newF i =
     (if i < pq_size pq
      then (if pq_nodeId (pq_nodes pq i) = n
            then (if flt newF (pq_fScore (pq_nodes pq i))
                  then pq_heapify_up
                         (pq\<lparr>pq_nodes := (pq_nodes pq)(i := (pq_nodes pq i)\<lparr>pq_fScore := newF\<rparr>)\<rparr>) i
                  else pq)
            else decrease_from pq n newF (i + 1))
      else snd (pq_push pq n newF))"
  by pat_completeness auto
termination
  by (relation "measure (\<lambda>(pq, n, newF, i). pq_size pq - i)") auto

declare decrease_from.simps [simp del]

definition pq_decrease_priority ::
  "c_float PriorityQueue \<Rightarrow> int \<Rightarrow> c_float \<Rightarrow> c_float PriorityQueue" where
  "pq_decrease_priority pq n newF = decrease_from pq n newF 0"

text \<open>
  Sequences of queue operations, whether the score an operation passes is a number, and
  the heap order of the slots in use: \<open>fScore[parent] <= fScore[child]\<close>, tested as C
  tests it.
\<close>

datatype pq_op = Push int c_float | Pop | Decrease int c_float

fun pq_apply :: "c_float PriorityQueue \<Rightarrow> pq_op \<Rightarrow> c_float PriorityQueue" where
  "pq_apply pq (Push n f) = snd (pq_push pq n f)"
| "pq_apply pq Pop = (case pq_pop pq of None \<Rightarrow> pq | Some (n, f, pq') \<Rightarrow> pq')"
| "pq_apply pq (Decrease n f) = pq_decrease_priority pq n f"

fun pq_run :: "c_float PriorityQueue \<Rightarrow> pq_op list \<Rightarrow> c_float PriorityQueue" where
  "pq_run pq [] = pq"
| "pq_run pq (op # ops) = pq_run (pq_apply pq op) ops"

fun score_is_number :: "pq_op \<Rightarrow> bool" where
  "score_is_number (Push n f) = (f \<noteq> NaN)"
| "score_is_number Pop = True"
| "score_is_number (Decrease n f) = (f \<noteq> NaN)"

definition heap_ok :: "c_float PriorityQueue \<Rightarrow> bool" where
  "heap_ok pq \<longleftrightarrow>
     (\<forall>i. 0 < i \<and> i < pq_size pq \<longrightarrow>
        fle (pq_fScore (pq_nodes pq ((i - 1) div 2))) (pq_fScore (pq_nodes pq i)))"

text \<open>
  For the proofs: the first \<open>n\<close> slots of a storage array hold numbers; they are in heap
  order (in the linear order of the type); and the two weaker states inside the sift
  loops: the order may fail only between slot \<open>idx\<close> and its parent (sifting up), or
  only between slot \<open>idx\<close> and its children (sifting down).
\<close>

definition keys_ok :: "nat \<Rightarrow> (nat \<Rightarrow> c_float PQNode) \<Rightarrow> bool" where
  "keys_ok n a \<longleftrightarrow> (\<forall>i. i < n \<longrightarrow> pq_fScore (a i) \<noteq> NaN)"

definition heap_upto :: "nat \<Rightarrow> (nat \<Rightarrow> 'a::linorder PQNode) \<Rightarrow> bool" where
  "heap_upto n a \<longleftrightarrow>
     (\<forall>i. 0 < i \<and> i < n \<longrightarrow> pq_fScore (a ((i - 1) div 2)) \<le> pq_fScore (a i))"

definition heap_except_up :: "nat \<Rightarrow> (nat \<Rightarrow> 'a::linorder PQNode) \<Rightarrow> nat \<Rightarrow> bool" where
  "heap_except_up n a idx \<longleftrightarrow>
     (\<forall>i. 0 < i \<and> i < n \<and> i \<noteq> idx \<longrightarrow> pq_fScore (a ((i - 1) div 2)) \<le> pq_fScore (a i))
     \<and> (\<forall>c. 0 < idx \<and> c < n \<and> 0 < c \<and> (c - 1) div 2 = idx \<longrightarrow>
            pq_fScore (a ((idx - 1) div 2)) \<le> pq_fScore (a c))"

definition heap_except_down :: "nat \<Rightarrow> (nat \<Rightarrow> 'a::linorder PQNode) \<Rightarrow> nat \<Rightarrow> bool" where
  "heap_except_down n a idx \<longleftrightarrow>
     (\<forall>i. 0 < i \<and> i < n \<and> (i - 1) div 2 \<noteq> idx \<longrightarrow>
            pq_fScore (a ((i - 1) div 2)) \<le> pq_fScore (a i))
     \<and> (\<forall>c. 0 < idx \<and> c < n \<and> 0 < c \<and> (c - 1) div 2 = idx \<longrightarrow>
            pq_fScore (a ((idx - 1) div 2)) \<le> pq_fScore (a c))"

definition heap_inv :: "c_float PriorityQueue \<Rightarrow> bool" where
  "heap_inv pq \<longleftrightarrow>
     heap_upto (pq_size pq) (pq_nodes pq) \<and> keys_ok (pq_size pq) (pq_nodes pq)"

section \<open>A* search (astar.c)\<close>

text \<open>
  The search computes with \<open>float\<close> values, \<open>FLT_MAX\<close> being the largest finite one.
  Allocation is assumed to succeed, and the wall-clock field \<open>searchTimeMs\<close> of the
  statistics is left out.
\<close>

datatype HeuristicType =
  HEURISTIC_EUCLIDEAN | HEURISTIC_MANHATTAN | HEURISTIC_CHEBYSHEV | HEURISTIC_ZERO

record AStarStats =
  nodesExplored :: int
  nodesInOpenSet :: int
  maxOpenSetSize :: int

record AStarConfig =
  heuristic :: HeuristicType
  heuristicWeight :: c_float
  allowDiagonal :: bool

definition path_result_create :: "c_float PathResult" where
  "path_result_create =
     \<lparr>path_nodes = [], path_length = 0, totalCost = Fin 0, found = False\<rparr>"

definition astar_heuristic ::
  "c_float Node option \<Rightarrow> c_float Node option \<Rightarrow> HeuristicType \<Rightarrow> c_float" where
  "astar_heuristic a b kind =
     (case a of None \<Rightarrow> Fin 0 | Some na \<Rightarrow>
      (case b of None \<Rightarrow> Fin 0 | Some nb \<Rightarrow>
        (let dx = fabsf (fsub (node_x nb) (node_x na));
             dy = fabsf (fsub (node_y nb) (node_y na))
         in case kind of
              HEURISTIC_EUCLIDEAN \<Rightarrow> sqrtf (fadd (fmul dx dx) (fmul dy dy))
            | HEURISTIC_MANHATTAN \<Rightarrow> fadd dx dy
            | HEURISTIC_CHEBYSHEV \<Rightarrow> fmaxf dx dy
            | HEURISTIC_ZERO \<Rightarrow> Fin 0)))"

definition astar_default_config :: AStarConfig where
  "astar_default_config =
     \<lparr>heuristic = HEURISTIC_EUCLIDEAN, heuristicWeight = Fin 1, allowDiagonal = True\<rparr>"

text \<open>
  \<open>reconstruct_path\<close>. The counting loop walks the predecessor links from the goal; the
  fill loop writes the slots \<open>length - 1\<close> down to \<open>0\<close>, which builds the list from its end.
\<close>

function count_path :: "(int \<Rightarrow> int) \<Rightarrow> int \<Rightarrow> int \<Rightarrow> int \<Rightarrow> int \<Rightarrow> int \<times> int" where
  "count_path came startId n current len =
     (if current \<noteq> startId \<and> current \<noteq> - 1 \<and> len < n
      then count_path came startId n (came current) (len + 1)
      else (current, len))"
  by pat_completeness auto
termination
  by (relation "measure (\<lambda>(came, startId, n, current, len). nat (n - len))") auto

declare count_path.simps [simp del]

fun fill_path :: "(int \<Rightarrow> int) \<Rightarrow> nat \<Rightarrow> int \<Rightarrow> int list \<Rightarrow> int list" where
  "fill_path came 0 current acc = acc"
| "fill_path came (Suc k) current acc = fill_path came k (came current) (current # acc)"

definition reconstruct_path ::
  "(int \<Rightarrow> int) \<Rightarrow> (int \<Rightarrow> c_float) \<Rightarrow> int \<Rightarrow> int \<Rightarrow> int \<Rightarrow> c_float PathResult" where
  "reconstruct_path came gs startId goalId n =
     (case count_path came startId n goalId 0 of
        (current, len0) \<Rightarrow>
          let len = (if current = startId then len0 + 1 else len0)
          in if current \<noteq> startId then path_result_create
             else \<lparr>path_nodes = fill_path came (nat len) goalId [],
                   path_length = len, totalCost = gs goalId, found = True\<rparr>)"

text \<open>
  The working state of \<open>astar_find_path\<close>. The last field is not in the source: it
  records, in order, each call the search makes to \<open>pq_push\<close> (with the value returned,
  which the source discards) and to \<open>pq_decrease_priority\<close> (with whether the node had
  an entry in the queue). Nothing reads it.
\<close>

datatype pq_event = Pushed int bool | Decreased int bool

record astar_state =
  gScore :: "int \<Rightarrow> c_float"
  fScore :: "int \<Rightarrow> c_float"
  cameFrom :: "int \<Rightarrow> int"
  inClosedSet :: "int \<Rightarrow> bool"
  inOpenSet :: "int \<Rightarrow> bool"
  openSet :: "c_float PriorityQueue"
  localStats :: AStarStats
  pq_calls :: "pq_event list"

definition pq_create :: "nat \<Rightarrow> c_float PriorityQueue" where
  "pq_create cap =
     \<lparr>pq_nodes = (\<lambda>_. \<lparr>pq_nodeId = 0, pq_fScore = Fin 0\<rparr>), pq_size = 0, pq_capacity = cap\<rparr>"

definition pq_has :: "'a PriorityQueue \<Rightarrow> int \<Rightarrow> bool" where
  "pq_has pq n \<longleftrightarrow> n \<in> set (map (\<lambda>i. pq_nodeId (pq_nodes pq i)) [0..<pq_size pq])"

text \<open>The body of the loop over the edges of the current node (astar.c:322-355).\<close>

definition relax_edge ::
  "c_float Graph \<Rightarrow> AStarConfig \<Rightarrow> int \<Rightarrow> int \<Rightarrow> int \<Rightarrow> astar_state \<Rightarrow> astar_state" where
  "relax_edge g cfg goalId currentId i st =
     (let edge = edges g currentId i in
      if \<not> eactive edge then st
      else
        let neighborId = to_e edge in
        if \<not> active (nodes g neighborId) then st
        else if inClosedSet st neighborId then st
        else
          let tentativeG = fadd (gScore st currentId) (weight edge) in
          if flt tentativeG (gScore st neighborId)
          then
            let h = fmul (astar_heuristic (Some (nodes g neighborId)) (Some (nodes g goalId))
                            (heuristic cfg)) (heuristicWeight cfg);
                st1 = st\<lparr>cameFrom := (cameFrom st)(neighborId := currentId),
                         gScore := (gScore st)(neighborId := tentativeG),
                         fScore := (fScore st)(neighborId := fadd tentativeG h)\<rparr>
            in if \<not> inOpenSet st1 neighborId
               then
                 let pushed = pq_push (openSet st1) neighborId (fScore st1 neighborId);
                     st2 = st1\<lparr>openSet := snd pushed,
                              inOpenSet := (inOpenSet st1)(neighborId := True),
                              pq_calls := pq_calls st1 @ [Pushed neighborId (fst pushed)]\<rparr>
                 in if int (pq_size (openSet st2)) > maxOpenSetSize (localStats st2)
                    then st2\<lparr>localStats := (localStats st2)
                             \<lparr>maxOpenSetSize := int (pq_size (openSet st2))\<rparr>\<rparr>
                    else st2
               else
                 st1\<lparr>openSet := pq_decrease_priority (openSet st1) neighborId
                                   (fScore st1 neighborId),
                     pq_calls := pq_calls st1
                                   @ [Decreased neighborId (pq_has (openSet st1) neighborId)]\<rparr>
          else st)"

text \<open>
  One iteration of the main loop, entered with a non-empty queue: \<open>Inl\<close> is the
  \<open>break\<close> with the reconstructed path, \<open>Inr\<close> the state for the next iteration.
  \<open>pq_pop\<close> cannot fail there; the model stops with the empty result if it did.
\<close>

definition astar_iter ::
  "c_float Graph \<Rightarrow> AStarConfig \<Rightarrow> int \<Rightarrow> int \<Rightarrow> astar_state
     \<Rightarrow> (c_float PathResult \<times> astar_state) + astar_state" where
  "astar_iter g cfg startId goalId st =
     (case pq_pop (openSet st) of
        None \<Rightarrow> Inl (path_result_create, st)
      | Some (currentId, currentFScore, pq') \<Rightarrow>
          let st1 = st\<lparr>openSet := pq',
                       inOpenSet := (inOpenSet st)(currentId := False),
                       localStats := (localStats st)
                         \<lparr>nodesExplored := nodesExplored (localStats st) + 1\<rparr>\<rparr>
          in if currentId = goalId
             then Inl (reconstruct_path (cameFrom st1) (gScore st1) startId goalId (nodeCount g),
                       st1\<lparr>localStats := (localStats st1)
                            \<lparr>nodesInOpenSet := int (pq_size (openSet st1))\<rparr>\<rparr>)
             else if inClosedSet st1 currentId then Inr st1
             else
               let st2 = st1\<lparr>inClosedSet := (inClosedSet st1)(currentId := True)\<rparr>
               in Inr (for_loop 0 (edgeCounts g currentId)
                         (relax_edge g cfg goalId currentId) st2))"

partial_function (option) astar_loop ::
  "c_float Graph \<Rightarrow> AStarConfig \<Rightarrow> int \<Rightarrow> int \<Rightarrow> astar_state
     \<Rightarrow> (c_float PathResult \<times> astar_state) option" where
  "astar_loop g cfg startId goalId st =
     (if pq_empty (openSet st) then Some (path_result_create, st)
      else (case astar_iter g cfg startId goalId st of
              Inl r \<Rightarrow> Some r
            | Inr st' \<Rightarrow> astar_loop g cfg startId goalId st'))"

declare astar_loop.simps [code]

text \<open>
  The state before the main loop: scores and predecessors initialised over
  \<open>0 .. nodeCount - 1\<close>, the start node scored and pushed.
\<close>

definition init_scores :: "int \<Rightarrow> astar_state \<Rightarrow> astar_state" where
  "init_scores i st =
     st\<lparr>gScore := (gScore st)(i := Fin FLT_MAX),
        fScore := (fScore st)(i := Fin FLT_MAX),
        cameFrom := (cameFrom st)(i := - 1)\<rparr>"

definition astar_init :: "c_float Graph \<Rightarrow> AStarConfig \<Rightarrow> int \<Rightarrow> int \<Rightarrow> astar_state" where
  "astar_init g cfg startId goalId =
     (let n = nodeCount g;
          st0 = \<lparr>gScore = (\<lambda>_. Fin 0), fScore = (\<lambda>_. Fin 0), cameFrom = (\<lambda>_. 0),
                 inClosedSet = (\<lambda>_. False), inOpenSet = (\<lambda>_. False),
                 openSet = pq_create (nat n),
                 localStats = \<lparr>nodesExplored = 0, nodesInOpenSet = 0, maxOpenSetSize = 0\<rparr>,
                 pq_calls = []\<rparr>;
          st1 = for_loop 0 n init_scores st0;
          h = fmul (astar_heuristic (Some (nodes g startId)) (Some (nodes g goalId))
                      (heuristic cfg)) (heuristicWeight cfg);
          st2 = st1\<lparr>gScore := (gScore st1)(startId := Fin 0),
                    fScore := (fScore st1)(startId := h)\<rparr>;
          pushed = pq_push (openSet st2) startId (fScore st2 startId)
      in st2\<lparr>openSet := snd pushed,
             inOpenSet := (inOpenSet st2)(startId := True),
             localStats := (localStats st2)\<lparr>maxOpenSetSize := 1\<rparr>,
             pq_calls := pq_calls st2 @ [Pushed startId (fst pushed)]\<rparr>)"

text \<open>
  \<open>astar_find_path\<close>: the result, the statistics written through \<open>stats\<close> (\<open>None\<close> when
  the function returns before writing them) and the recorded queue calls. The value
  \<open>None\<close> of the whole function is a search that does not return.
\<close>

definition astar_find_path ::
  "c_float Graph \<Rightarrow> int \<Rightarrow> int \<Rightarrow> AStarConfig option
     \<Rightarrow> (c_float PathResult \<times> AStarStats option \<times> pq_event list) option" where
  "astar_find_path g startId goalId config =
     (if startId < 0 \<or> goalId < 0 \<or> startId \<ge> nodeCount g \<or> goalId \<ge> nodeCount g
      then Some (path_result_create, None, [])
      else
        let cfg = (case config of Some c \<Rightarrow> c | None \<Rightarrow> astar_default_config)
        in case astar_loop g cfg startId goalId (astar_init g cfg startId goalId) of
             None \<Rightarrow> None
           | Some (result, st) \<Rightarrow> Some (result, Some (localStats st), pq_calls st))"

section \<open>Persistence (graph_save, graph_load)\<close>

text \<open>
  A file is the list of its bytes. The graph holds each \<open>float\<close> as its 32-bit pattern
  (\<open>'f\<close> is \<open>32 word\<close>), an \<open>int\<close> is written as the four bytes of its two's complement,
  low byte first (the byte order of the usual hosts), and a \<open>bool\<close> as one byte.
\<close>

definition magic :: "byte list" where
  "magic = [0x52, 0x43, 0x47, 0x52, 0x41, 0x50, 0x48, 0x31]"

definition enc_u32 :: "nat \<Rightarrow> byte list" where
  "enc_u32 u = [of_nat (u mod 256), of_nat (u div 256 mod 256),
                of_nat (u div 65536 mod 256), of_nat (u div 16777216 mod 256)]"

definition dec_u32 :: "byte list \<Rightarrow> nat" where
  "dec_u32 bs = unat (bs ! 0) + 256 * unat (bs ! 1) + 65536 * unat (bs ! 2)
                + 16777216 * unat (bs ! 3)"

definition enc_int :: "int \<Rightarrow> byte list" where
  "enc_int i = enc_u32 (nat (i mod 4294967296))"

definition dec_int :: "byte list \<Rightarrow> int" where
  "dec_int bs = (if dec_u32 bs < 2147483648 then int (dec_u32 bs)
                 else int (dec_u32 bs) - 4294967296)"

definition enc_float :: "32 word \<Rightarrow> byte list" where
  "enc_float w = enc_u32 (unat w)"

definition dec_float :: "byte list \<Rightarrow> 32 word" where
  "dec_float bs = of_nat (dec_u32 bs)"

definition enc_bool :: "bool \<Rightarrow> byte list" where
  "enc_bool b = [if b then 1 else 0]"

definition dec_bool :: "byte list \<Rightarrow> bool" where
  "dec_bool bs \<longleftrightarrow> bs ! 0 \<noteq> 0"

text \<open>
  \<open>graph_save\<close> for a file that could be opened (the function then returns true): the
  bytes written, each \<open>fwrite\<close> appending to the file. The name array is the list of its
  \<open>MAX_NAME_LENGTH\<close> bytes.
\<close>

definition save_node :: "32 word Node \<Rightarrow> byte list" where
  "save_node nd = enc_int (node_id nd) @ name nd @ enc_float (node_x nd)
                  @ enc_float (node_y nd) @ enc_bool (active nd)"

definition save_edge :: "32 word Edge \<Rightarrow> byte list" where
  "save_edge e = enc_int (from_e e) @ enc_int (to_e e) @ enc_float (weight e)
                 @ enc_bool (eactive e)"

definition graph_save :: "32 word Graph \<Rightarrow> byte list" where
  "graph_save g =
     (let f = magic;
          f = f @ enc_int (nodeCount g);
          f = for_loop 0 (nodeCount g) (\<lambda>i f. f @ save_node (nodes g i)) f;
          f = for_loop 0 MAX_NODES (\<lambda>i f. f @ enc_int (edgeCounts g i)) f;
          f = for_loop 0 (nodeCount g)
                (\<lambda>i f. for_loop 0 (edgeCounts g i) (\<lambda>j f. f @ save_edge (edges g i j)) f) f
      in f)"

text \<open>The bytes a loop of appending writes appends.\<close>

definition cat_range :: "(int \<Rightarrow> byte list) \<Rightarrow> int \<Rightarrow> int \<Rightarrow> byte list" where
  "cat_range h i n = for_loop i n (\<lambda>k f. f @ h k) []"

text \<open>
  Reading. An \<open>fread\<close> copies the bytes that are left in the file, up to the size asked
  for, over the first bytes of the destination, and leaves the file at its end when they
  were too few (the C library does so; the standard calls the value of a partly read
  element indeterminate). \<open>read_elem\<close> is the \<open>fread\<close> of one element of \<open>sz\<close> bytes,
  given the encoding of the destination's type: \<open>old\<close> is the value the destination holds
  before. \<open>read_bytes\<close> is the \<open>fread\<close> of \<open>k\<close> single bytes into a byte array, and
  \<open>read_counts\<close> the \<open>fread\<close> of the whole \<open>edgeCounts\<close> table, whose bytes are those of
  its \<open>MAX_NODES\<close> elements in order.
\<close>

definition read_elem ::
  "nat \<Rightarrow> ('a \<Rightarrow> byte list) \<Rightarrow> (byte list \<Rightarrow> 'a) \<Rightarrow> 'a \<Rightarrow> byte list \<Rightarrow> 'a \<times> byte list" where
  "read_elem sz enc dec old f =
     (dec (take sz f @ drop (length (take sz f)) (enc old)), drop sz f)"

definition read_bytes :: "nat \<Rightarrow> byte list \<Rightarrow> byte list \<Rightarrow> byte list \<times> byte list" where
  "read_bytes k old f = (take k f @ drop (length (take k f)) (take k old), drop k f)"

definition table_bytes :: "(int \<Rightarrow> int) \<Rightarrow> byte list" where
  "table_bytes h = cat_range (\<lambda>i. enc_int (h i)) 0 MAX_NODES"

definition read_counts :: "(int \<Rightarrow> int) \<Rightarrow> byte list \<Rightarrow> (int \<Rightarrow> int) \<times> byte list" where
  "read_counts old f =
     (let got = take (4 * nat MAX_NODES) f;
          bytes = got @ drop (length got) (table_bytes old)
      in ((\<lambda>i. if 0 \<le> i \<and> i < MAX_NODES then dec_int (take 4 (drop (4 * nat i) bytes))
                else old i),
          drop (4 * nat MAX_NODES) f))"

definition load_node :: "int \<Rightarrow> 32 word Graph \<times> byte list \<Rightarrow> 32 word Graph \<times> byte list" where
  "load_node i gf =
     (let g = fst gf; f = snd gf; nd = nodes g i;
          r1 = read_elem 4 enc_int dec_int (node_id nd) f;
          r2 = read_bytes MAX_NAME_LENGTH (name nd) (snd r1);
          r3 = read_elem 4 enc_float dec_float (node_x nd) (snd r2);
          r4 = read_elem 4 enc_float dec_float (node_y nd) (snd r3);
          r5 = read_elem 1 enc_bool dec_bool (active nd) (snd r4)
      in (g\<lparr>nodes := (nodes g)(i := \<lparr>node_id = fst r1, name = fst r2, node_x = fst r3,
                                     node_y = fst r4, active = fst r5\<rparr>)\<rparr>,
          snd r5))"

definition load_edge ::
  "int \<Rightarrow> int \<Rightarrow> 32 word Graph \<times> byte list \<Rightarrow> 32 word Graph \<times> byte list" where
  "load_edge i j gf =
     (let g = fst gf; f = snd gf; e = edges g i j;
          r1 = read_elem 4 enc_int dec_int (from_e e) f;
          r2 = read_elem 4 enc_int dec_int (to_e e) (snd r1);
          r3 = read_elem 4 enc_float dec_float (weight e) (snd r2);
          r4 = read_elem 1 enc_bool dec_bool (eactive e) (snd r3)
      in (g\<lparr>edges := (edges g)(i := (edges g i)(j :=
              \<lparr>from_e = fst r1, to_e = fst r2, weight = fst r3, eactive = fst r4\<rparr>))\<rparr>,
          snd r4))"

text \<open>
  \<open>graph_load\<close>: the file is \<open>None\<close> when it cannot be opened. Only the first two reads
  are checked; the second one has already written to \<open>nodeCount\<close> when it is found
  short. (A node count above \<open>MAX_NODES\<close> makes the C loops write outside the arrays;
  the model has no such bound.)
\<close>

definition graph_load :: "32 word Graph \<Rightarrow> byte list option \<Rightarrow> bool \<times> 32 word Graph" where
  "graph_load g file =
     (case file of
        None \<Rightarrow> (False, g)
      | Some f \<Rightarrow>
          if length (take 8 f) \<noteq> 8 \<or> take 8 f \<noteq> magic then (False, g)
          else
            let f = drop 8 f;
                g = graph_init;
                r = read_elem 4 enc_int dec_int (nodeCount g) f;
                g = g\<lparr>nodeCount := fst r\<rparr>
            in if length f < 4 then (False, g)
               else
                 let f = snd r;
                     gf = for_loop 0 (nodeCount g) load_node (g, f);
                     rc = read_counts (edgeCounts (fst gf)) (snd gf);
                     gf = ((fst gf)\<lparr>edgeCounts := fst rc\<rparr>, snd rc);
                     gf = for_loop 0 (nodeCount (fst gf))
                            (\<lambda>i gf. for_loop 0 (edgeCounts (fst gf) i) (load_edge i) gf) gf
                 in (True, fst gf))"

text \<open>
  What a graph in memory satisfies: counts within the array bounds, \<open>int\<close> fields
  within 32 bits, names of \<open>MAX_NAME_LENGTH\<close> bytes.
\<close>

definition is_int32 :: "int \<Rightarrow> bool" where
  "is_int32 i \<longleftrightarrow> - 2147483648 \<le> i \<and> i < 2147483648"

definition graph_rep :: "32 word Graph \<Rightarrow> bool" where
  "graph_rep g \<longleftrightarrow>
     0 \<le> nodeCount g \<and> nodeCount g \<le> MAX_NODES
     \<and> (\<forall>i. 0 \<le> i \<and> i < MAX_NODES \<longrightarrow> is_int32 (edgeCounts g i))
     \<and> (\<forall>i. 0 \<le> i \<and> i < nodeCount g \<longrightarrow>
            is_int32 (node_id (nodes g i)) \<and> length (name (nodes g i)) = MAX_NAME_LENGTH
            \<and> edgeCounts g i \<le> MAX_EDGES_PER_NODE)
     \<and> (\<forall>i j. 0 \<le> i \<and> i < nodeCount g \<and> 0 \<le> j \<and> j < edgeCounts g i \<longrightarrow>
            is_int32 (from_e (edges g i j)) \<and> is_int32 (to_e (edges g i j)))"

section \<open>Paths and the invariants of the search\<close>

text \<open>
  The entries of the queue in slot order, and their node ids.
\<close>

definition pq_list :: "'a PriorityQueue \<Rightarrow> 'a PQNode list" where
  "pq_list pq = map (pq_nodes pq) [0..<pq_size pq]"

definition pq_ids :: "'a PriorityQueue \<Rightarrow> int list" where
  "pq_ids pq = map pq_nodeId (pq_list pq)"

text \<open>
  The edges the search follows: slot \<open>j\<close> of row \<open>u\<close> is counted, active, and leads to an
  active node. A graph is well formed when the target of every counted active edge of an
  existing row is an existing node. A path is given by its start and the slots taken;
  \<open>walk\<close> returns where it ends and what it costs, adding the weights in path order
  with the addition of \<open>float\<close>s, as the search does. The weights are non-negative when
  the C test \<open>0 <= weight\<close> holds of each (none is NaN, then).
\<close>

definition edge_ok :: "'f Graph \<Rightarrow> int \<Rightarrow> int \<Rightarrow> bool" where
  "edge_ok g u j \<longleftrightarrow>
     0 \<le> u \<and> u < nodeCount g \<and> 0 \<le> j \<and> j < edgeCounts g u
     \<and> eactive (edges g u j) \<and> active (nodes g (to_e (edges g u j)))"

definition graph_wf :: "'f Graph \<Rightarrow> bool" where
  "graph_wf g \<longleftrightarrow>
     (\<forall>u j. 0 \<le> u \<and> u < nodeCount g \<and> 0 \<le> j \<and> j < edgeCounts g u \<and> eactive (edges g u j)
        \<longrightarrow> 0 \<le> to_e (edges g u j) \<and> to_e (edges g u j) < nodeCount g)"

definition nonneg_weights :: "c_float Graph \<Rightarrow> bool" where
  "nonneg_weights g \<longleftrightarrow> (\<forall>u j. edge_ok g u j \<longrightarrow> fle (Fin 0) (weight (edges g u j)))"

fun walk :: "c_float Graph \<Rightarrow> int \<Rightarrow> c_float \<Rightarrow> int list \<Rightarrow> (int \<times> c_float) option" where
  "walk g u c [] = Some (u, c)"
| "walk g u c (j # js) =
     (if edge_ok g u j then walk g (to_e (edges g u j)) (fadd c (weight (edges g u j))) js
      else None)"

text \<open>The recorded queue calls: the ids pushed, and whether a call went well.\<close>

fun pushed_ids :: "pq_event list \<Rightarrow> int list" where
  "pushed_ids [] = []"
| "pushed_ids (Pushed v ok # es) = v # pushed_ids es"
| "pushed_ids (Decreased v ok # es) = pushed_ids es"

fun event_ok :: "pq_event \<Rightarrow> bool" where
  "event_ok (Pushed v ok) = ok"
| "event_ok (Decreased v ok) = ok"

text \<open>
  The bookkeeping invariant of the main loop, for any heuristic: the queue holds each
  open node once, open and closed nodes are existing nodes and disjoint, exactly the
  open and closed nodes were pushed, each once, and the peak size is within bounds.
\<close>

definition astar_struct :: "c_float Graph \<Rightarrow> astar_state \<Rightarrow> bool" where
  "astar_struct g st \<longleftrightarrow>
     pq_capacity (openSet st) = nat (nodeCount g)
     \<and> distinct (pq_ids (openSet st))
     \<and> (\<forall>v. inOpenSet st v \<longleftrightarrow> v \<in> set (pq_ids (openSet st)))
     \<and> (\<forall>v. inOpenSet st v \<longrightarrow> \<not> inClosedSet st v)
     \<and> (\<forall>v. inOpenSet st v \<or> inClosedSet st v \<longrightarrow> 0 \<le> v \<and> v < nodeCount g)
     \<and> distinct (pushed_ids (pq_calls st))
     \<and> set (pushed_ids (pq_calls st)) = {v. inOpenSet st v \<or> inClosedSet st v}
     \<and> (\<forall>e \<in> set (pq_calls st). event_ok e)
     \<and> int (pq_size (openSet st)) \<le> maxOpenSetSize (localStats st)
     \<and> maxOpenSetSize (localStats st) \<le> nodeCount g"

text \<open>The number of existing nodes not yet closed: it drops in every iteration.\<close>

definition unclosed :: "c_float Graph \<Rightarrow> astar_state \<Rightarrow> nat" where
  "unclosed g st = card {v. 0 \<le> v \<and> v < nodeCount g \<and> \<not> inClosedSet st v}"

text \<open>
  Following the predecessor links from \<open>v\<close> through closed nodes reaches the start
  within \<open>k\<close> steps.
\<close>

fun chain :: "(int \<Rightarrow> int) \<Rightarrow> (int \<Rightarrow> bool) \<Rightarrow> int \<Rightarrow> nat \<Rightarrow> int \<Rightarrow> bool" where
  "chain came cl s 0 v \<longleftrightarrow> v = s"
| "chain came cl s (Suc k) v \<longleftrightarrow> v = s \<or> (cl v \<and> chain came cl s k (came v))"

text \<open>
  The costs a path can have when the weights are non-negative: a non-negative \<open>float\<close>
  (a number that rounding leaves as it is) or plus infinity.
\<close>

fun is_cost :: "c_float \<Rightarrow> bool" where
  "is_cost (Fin r) \<longleftrightarrow> 0 \<le> r \<and> round_f32 r = Fin r"
| "is_cost PInf \<longleftrightarrow> True"
| "is_cost MInf \<longleftrightarrow> False"
| "is_cost NaN \<longleftrightarrow> False"

text \<open>
  The invariant of the main loop with the zero heuristic (Dijkstra's algorithm), in two
  parts. The queue is a heap whose keys are the g-scores of its nodes. A node is scored
  below \<open>FLT_MAX\<close> exactly when it is open or closed, and then its score is the cost of
  a path from the start; the edges out of closed nodes are relaxed; closed scores are at
  most the others; the goal is not closed; the predecessor links of closed nodes lead to
  the start. The comparisons are those of the linear order of the type: the scores of
  the existing nodes are numbers.
\<close>

definition heap_scored :: "astar_state \<Rightarrow> bool" where
  "heap_scored st \<longleftrightarrow>
     heap_inv (openSet st)
     \<and> (\<forall>e \<in> set (pq_list (openSet st)). pq_fScore e = gScore st (pq_nodeId e))"

definition dijk_scores :: "c_float Graph \<Rightarrow> int \<Rightarrow> int \<Rightarrow> astar_state \<Rightarrow> bool" where
  "dijk_scores g s t st \<longleftrightarrow>
     \<not> inClosedSet st t
     \<and> gScore st s = Fin 0 \<and> (inOpenSet st s \<or> inClosedSet st s)
     \<and> (\<forall>v. 0 \<le> v \<and> v < nodeCount g \<longrightarrow>
            is_cost (gScore st v) \<and> gScore st v \<le> Fin FLT_MAX)
     \<and> (\<forall>v. 0 \<le> v \<and> v < nodeCount g \<longrightarrow>
            (gScore st v < Fin FLT_MAX \<longleftrightarrow> inOpenSet st v \<or> inClosedSet st v))
     \<and> (\<forall>v. inOpenSet st v \<or> inClosedSet st v \<longrightarrow>
            (\<exists>js. walk g s (Fin 0) js = Some (v, gScore st v)))
     \<and> (\<forall>x j. inClosedSet st x \<and> edge_ok g x j \<longrightarrow>
            gScore st (to_e (edges g x j)) \<le> fadd (gScore st x) (weight (edges g x j)))
     \<and> (\<forall>x v. inClosedSet st x \<and> 0 \<le> v \<and> v < nodeCount g \<and> \<not> inClosedSet st v \<longrightarrow>
            gScore st x \<le> gScore st v)
     \<and> (\<forall>v. inClosedSet st v \<longrightarrow>
            chain (cameFrom st) (inClosedSet st) s (card {x. inClosedSet st x} - 1) v)
     \<and> (\<forall>v. inOpenSet st v \<and> v \<noteq> s \<longrightarrow> inClosedSet st (cameFrom st v))"

definition astar_dijk :: "c_float Graph \<Rightarrow> int \<Rightarrow> int \<Rightarrow> astar_state \<Rightarrow> bool" where
  "astar_dijk g s t st \<longleftrightarrow> astar_struct g st \<and> heap_scored st \<and> dijk_scores g s t st"

text \<open>
  The score part inside the loop over the edges of the node \<open>u\<close> just closed, before
  slot \<open>j\<close>: the edges of \<open>u\<close> below \<open>j\<close> are relaxed, and the score of \<open>u\<close> lies between
  the closed and the other scores.
\<close>

definition relax_scores ::
  "c_float Graph \<Rightarrow> int \<Rightarrow> int \<Rightarrow> int \<Rightarrow> int \<Rightarrow> astar_state \<Rightarrow> bool" where
  "relax_scores g s t u j st \<longleftrightarrow>
     inClosedSet st u \<and> \<not> inClosedSet st t
     \<and> gScore st s = Fin 0 \<and> (inOpenSet st s \<or> inClosedSet st s)
     \<and> (\<forall>v. 0 \<le> v \<and> v < nodeCount g \<longrightarrow>
            is_cost (gScore st v) \<and> gScore st v \<le> Fin FLT_MAX)
     \<and> (\<forall>v. 0 \<le> v \<and> v < nodeCount g \<longrightarrow>
            (gScore st v < Fin FLT_MAX \<longleftrightarrow> inOpenSet st v \<or> inClosedSet st v))
     \<and> (\<forall>v. inOpenSet st v \<or> inClosedSet st v \<longrightarrow>
            (\<exists>js. walk g s (Fin 0) js = Some (v, gScore st v)))
     \<and> (\<forall>x k. inClosedSet st x \<and> edge_ok g x k \<and> (x = u \<longrightarrow> k < j) \<longrightarrow>
            gScore st (to_e (edges g x k)) \<le> fadd (gScore st x) (weight (edges g x k)))
     \<and> (\<forall>x. inClosedSet st x \<longrightarrow> gScore st x \<le> gScore st u)
     \<and> (\<forall>v. 0 \<le> v \<and> v < nodeCount g \<and> \<not> inClosedSet st v \<longrightarrow> gScore st u \<le> gScore st v)
     \<and> (\<forall>v. inClosedSet st v \<longrightarrow>
            chain (cameFrom st) (inClosedSet st) s (card {x. inClosedSet st x} - 1) v)
     \<and> (\<forall>v. inOpenSet st v \<and> v \<noteq> s \<longrightarrow> inClosedSet st (cameFrom st v))"

section \<open>Loop invariants of the store\<close>

text \<open>
  State of \<open>graph_remove_node\<close>'s inner loop over row \<open>i\<close> after \<open>k\<close> slots, and of its
  outer loop after \<open>k\<close> rows, relative to the graph \<open>g\<close> the loop started from.
\<close>

definition row_done :: "int \<Rightarrow> int \<Rightarrow> int \<Rightarrow> 'f Graph \<Rightarrow> 'f Graph \<Rightarrow> bool" where
  "row_done nodeId i k g g' \<longleftrightarrow>
     nodes g' = nodes g \<and> nodeCount g' = nodeCount g \<and> edgeCounts g' = edgeCounts g \<and>
     (\<forall>i' j. edges g' i' j =
        (if i' = i \<and> 0 \<le> j \<and> j < k \<and> to_e (edges g i j) = nodeId
         then (edges g i j)\<lparr>eactive := False\<rparr> else edges g i' j))"

definition rows_done :: "int \<Rightarrow> int \<Rightarrow> 'f Graph \<Rightarrow> 'f Graph \<Rightarrow> bool" where
  "rows_done nodeId k g g' \<longleftrightarrow>
     nodes g' = nodes g \<and> nodeCount g' = nodeCount g \<and> edgeCounts g' = edgeCounts g \<and>
     (\<forall>i j. edges g' i j =
        (if i \<noteq> nodeId \<and> 0 \<le> i \<and> i < k \<and> 0 \<le> j \<and> j < edgeCounts g i
            \<and> to_e (edges g i j) = nodeId
         then (edges g i j)\<lparr>eactive := False\<rparr> else edges g i j))"

section \<open>Example graphs\<close>

text \<open>
  The scenario of the specification: A(0,0), B(10,0), C(10,10) with the edges
  A\<rightarrow>B (10), B\<rightarrow>C (10) and A\<rightarrow>C (30), built through the store's own operations.
\<close>

definition abc_nodes :: "c_float Graph" where
  "abc_nodes =
     snd (graph_add_node (snd (graph_add_node (snd (graph_add_node graph_init
       [65] (Fin 0) (Fin 0))) [66] (Fin 10) (Fin 0))) [67] (Fin 10) (Fin 10))"

definition abc_graph :: "c_float Graph" where
  "abc_graph =
     snd (graph_add_edge (snd (graph_add_edge (snd (graph_add_edge abc_nodes 0 1 (Fin 10)))
       1 2 (Fin 10))) 0 2 (Fin 30))"

text \<open>The same graph after node A was removed, and after an edge was then added from A.\<close>

definition abc_removed :: "c_float Graph" where
  "abc_removed = snd (graph_remove_node abc_graph 0)"

definition abc_readded :: "c_float Graph" where
  "abc_readded = snd (graph_add_edge abc_removed 0 1 (Fin 5))"

text \<open>A queue with room for four entries and a sequence of operations on it.\<close>

definition pq_example :: "c_float PriorityQueue" where
  "pq_example =
     \<lparr>pq_nodes = (\<lambda>_. \<lparr>pq_nodeId = 0, pq_fScore = Fin 0\<rparr>), pq_size = 0, pq_capacity = 4\<rparr>"

definition pq_example_ops :: "pq_op list" where
  "pq_example_ops =
     [Push 7 (Fin 5), Push 8 (Fin 3), Push 9 (Fin 4), Decrease 7 (Fin 1), Pop, Push 6 (Fin 2)]"

text \<open>Two pushes, the first with the score NaN.\<close>

definition nan_ops :: "pq_op list" where
  "nan_ops = [Push 1 NaN, Push 2 (Fin 1)]"

text \<open>The configuration that turns the search into Dijkstra's algorithm.\<close>

definition zero_config :: AStarConfig where
  "zero_config = \<lparr>heuristic = HEURISTIC_ZERO, heuristicWeight = Fin 1, allowDiagonal = True\<rparr>"

text \<open>
  The example graph with its coordinates and weights as single-precision bit patterns
  (10.0 is \<open>0x41200000\<close>, 30.0 is \<open>0x41F00000\<close>), after node C was removed.
\<close>

definition abc_bits_nodes :: "32 word Graph" where
  "abc_bits_nodes =
     snd (graph_add_node (snd (graph_add_node (snd (graph_add_node graph_init [65] 0 0))
       [66] 0x41200000 0)) [67] 0x41200000 0x41200000)"

definition abc_bits_edges :: "32 word Graph" where
  "abc_bits_edges =
     snd (graph_add_edge (snd (graph_add_edge (snd (graph_add_edge abc_bits_nodes
       0 1 0x41200000)) 1 2 0x41200000)) 0 2 0x41F00000)"

definition abc_bits :: "32 word Graph" where
  "abc_bits = snd (graph_remove_node abc_bits_edges 2)"

text \<open>A file that ends after the node count, which announces one node.\<close>

definition truncated_file :: "byte list" where
  "truncated_file = magic @ [1, 0, 0, 0]"

text \<open>
  Four graphs for the search. In the first the cheapest way from node 0 to node 3 uses
  an edge of negative weight into a node the search has already closed. In the second
  the only edge has the weight \<open>FLT_MAX\<close>. In the third the edges 0 \<rightarrow> 1 and 1 \<rightarrow> 2 have
  the weights \<open>2 ^ 24\<close> and 1. In the fourth the edge 0 \<rightarrow> 1 costs 10 and the detour
  0 \<rightarrow> 2 \<rightarrow> 1 costs 2; it is searched with an infinite heuristic weight.
\<close>

definition neg_nodes :: "c_float Graph" where
  "neg_nodes =
     snd (graph_add_node (snd (graph_add_node (snd (graph_add_node (snd (graph_add_node
       graph_init [83] (Fin 0) (Fin 0))) [65] (Fin 1) (Fin 0))) [66] (Fin 0) (Fin 1)))
       [84] (Fin 2) (Fin 0))"

definition neg_graph :: "c_float Graph" where
  "neg_graph =
     snd (graph_add_edge (snd (graph_add_edge (snd (graph_add_edge (snd (graph_add_edge
       neg_nodes 0 1 (Fin 1))) 0 2 (Fin 2))) 2 1 (Fin (- 5)))) 1 3 (Fin 10))"

definition far_graph :: "c_float Graph" where
  "far_graph =
     snd (graph_add_edge (snd (graph_add_node (snd (graph_add_node
       graph_init [83] (Fin 0) (Fin 0))) [84] (Fin 1) (Fin 0))) 0 1 (Fin FLT_MAX))"

definition big_graph :: "c_float Graph" where
  "big_graph =
     snd (graph_add_edge (snd (graph_add_edge (snd (graph_add_node (snd (graph_add_node
       (snd (graph_add_node graph_init [83] (Fin 0) (Fin 0))) [65] (Fin 1) (Fin 0)))
       [84] (Fin 2) (Fin 0))) 0 1 (Fin 16777216))) 1 2 (Fin 1))"

definition detour_graph :: "c_float Graph" where
  "detour_graph =
     snd (graph_add_edge (snd (graph_add_edge (snd (graph_add_edge (snd (graph_add_node
       (snd (graph_add_node (snd (graph_add_node graph_init [83] (Fin 0) (Fin 0)))
       [84] (Fin 1) (Fin 0))) [65] (Fin 0) (Fin 1))) 0 1 (Fin 10))) 0 2 (Fin 1)))
       2 1 (Fin 1))"

definition inf_config :: AStarConfig where
  "inf_config = \<lparr>heuristic = HEURISTIC_ZERO, heuristicWeight = PInf, allowDiagonal = True\<rparr>"

section \<open>The store: loops and queries\<close>

lemma for_loop_skip: "n \<le> i \<Longrightarrow> for_loop i n body s = s"
  by (simp add: for_loop.simps)

lemma for_loop_step: "i < n \<Longrightarrow> for_loop i n body s = for_loop (i + 1) n body (body i s)"
  by (subst for_loop.simps) simp

lemma for_loop_rule:
  assumes "P i s" and "i \<le> n"
    and "\<And>j t. i \<le> j \<Longrightarrow> j < n \<Longrightarrow> P j t \<Longrightarrow> P (j + 1) (body j t)"
  shows "P n (for_loop i n body s)"
  using assms
proof (induction i n body s rule: for_loop.induct)
  case (1 i n body s)
  show ?case
  proof (cases "i < n")
    case True
    have "P n (for_loop (i + 1) n body (body i s))"
      using True 1 by (intro "1.IH") auto
    then show ?thesis using True by (simp add: for_loop_step)
  next
    case False
    then show ?thesis using 1 by (simp add: for_loop_skip)
  qed
qed

lemma remove_node_row_done:
  assumes "i \<noteq> nodeId"
  shows "row_done nodeId i (edgeCounts g i) g (remove_node_row nodeId i g)"
proof (cases "0 \<le> edgeCounts g i")
  case True
  have "row_done nodeId i (edgeCounts g i) g
          (for_loop 0 (edgeCounts g i)
             (\<lambda>j g'. if to_e (edges g' i j) = nodeId then set_edge_inactive i j g' else g') g)"
  proof (rule for_loop_rule [where P = "\<lambda>k g'. row_done nodeId i k g g'"])
    show "row_done nodeId i 0 g g" by (auto simp: row_done_def)
    show "0 \<le> edgeCounts g i" by (rule True)
  next
    fix j t
    assume "0 \<le> j" "j < edgeCounts g i" and inv: "row_done nodeId i j g t"
    then show "row_done nodeId i (j + 1) g
                 (if to_e (edges t i j) = nodeId then set_edge_inactive i j t else t)"
      by (auto simp: row_done_def set_edge_inactive_def)
  qed
  then show ?thesis using assms by (simp add: remove_node_row_def)
next
  case False
  then show ?thesis using assms
    by (auto simp: remove_node_row_def for_loop_skip row_done_def)
qed

lemma remove_node_rows_done:
  assumes "0 \<le> n"
  shows "rows_done nodeId n g (for_loop 0 n (remove_node_row nodeId) g)"
proof (rule for_loop_rule [where P = "\<lambda>k g'. rows_done nodeId k g g'"])
  show "rows_done nodeId 0 g g" by (auto simp: rows_done_def)
  show "0 \<le> n" by (rule assms)
next
  fix i t
  assume i: "0 \<le> i" "i < n" and inv: "rows_done nodeId i g t"
  show "rows_done nodeId (i + 1) g (remove_node_row nodeId i t)"
  proof (cases "i = nodeId")
    case True
    then show ?thesis using inv by (auto simp: remove_node_row_def rows_done_def)
  next
    case False
    from remove_node_row_done [OF False, of t]
    have rd: "row_done nodeId i (edgeCounts t i) t (remove_node_row nodeId i t)" .
    show ?thesis
      unfolding rows_done_def
    proof (intro conjI allI)
      fix i' j
      show "edges (remove_node_row nodeId i t) i' j =
        (if i' \<noteq> nodeId \<and> 0 \<le> i' \<and> i' < i + 1 \<and> 0 \<le> j \<and> j < edgeCounts g i'
            \<and> to_e (edges g i' j) = nodeId
         then (edges g i' j)\<lparr>eactive := False\<rparr> else edges g i' j)"
        using rd inv i False by (auto simp: row_done_def rows_done_def)
    qed (use rd inv in \<open>auto simp: row_done_def rows_done_def\<close>)
  qed
qed

lemmas graph_eval = abc_nodes_def abc_graph_def abc_removed_def abc_readded_def
  graph_init_def graph_add_node_def graph_add_edge_def graph_has_edge_def
  graph_remove_node_def remove_node_row_def set_edge_inactive_def
  has_edge_from.simps for_loop.simps MAX_NODES_def MAX_EDGES_PER_NODE_def Let_def

lemma has_edge_from_iff:
  "has_edge_from g frm t i \<longleftrightarrow>
     (\<exists>j. i \<le> j \<and> j < edgeCounts g frm \<and> to_e (edges g frm j) = t \<and> eactive (edges g frm j))"
proof (induction g frm t i rule: has_edge_from.induct)
  case (1 g frm t i)
  show ?case
  proof (cases "i < edgeCounts g frm")
    case False
    then show ?thesis by (subst has_edge_from.simps) auto
  next
    case True
    show ?thesis
    proof (cases "to_e (edges g frm i) = t \<and> eactive (edges g frm i)")
      case hit: True
      then show ?thesis using True by (subst has_edge_from.simps) auto
    next
      case miss: False
      have "has_edge_from g frm t i = has_edge_from g frm t (i + 1)"
        using True miss by (subst has_edge_from.simps) auto
      also have "\<dots> \<longleftrightarrow> (\<exists>j. i + 1 \<le> j \<and> j < edgeCounts g frm \<and> to_e (edges g frm j) = t
          \<and> eactive (edges g frm j))"
        using "1.IH" True miss by blast
      also have "\<dots> \<longleftrightarrow> (\<exists>j. i \<le> j \<and> j < edgeCounts g frm \<and> to_e (edges g frm j) = t
          \<and> eactive (edges g frm j))"
      proof -
        have "\<And>j. i \<le> j \<Longrightarrow> to_e (edges g frm j) = t \<and> eactive (edges g frm j) \<Longrightarrow> i + 1 \<le> j"
          using miss by (metis add1_zle_eq order_le_less)
        then show ?thesis by (metis add1_zle_eq order_less_imp_le)
      qed
      finally show ?thesis .
    qed
  qed
qed

lemma graph_remove_node_in_range:
  assumes "0 \<le> x" and "x < nodeCount g"
  shows "fst (graph_remove_node g x)"
    and "rows_done x (nodeCount g)
           (g\<lparr>nodes := (nodes g)(x := (nodes g x)\<lparr>active := False\<rparr>),
              edgeCounts := (edgeCounts g)(x := 0)\<rparr>)
           (snd (graph_remove_node g x))"
proof -
  show "fst (graph_remove_node g x)"
    using assms by (simp add: graph_remove_node_def Let_def)
  have "0 \<le> nodeCount g" using assms by simp
  from remove_node_rows_done [OF this]
  show "rows_done x (nodeCount g)
           (g\<lparr>nodes := (nodes g)(x := (nodes g x)\<lparr>active := False\<rparr>),
              edgeCounts := (edgeCounts g)(x := 0)\<rparr>)
           (snd (graph_remove_node g x))"
    using assms by (simp add: graph_remove_node_def Let_def)
qed

lemma neighbors_loop_empty:
  "edgeCounts g x \<le> i \<Longrightarrow> neighbors_loop g x m i c buf = (c, buf)"
  by (subst neighbors_loop.simps) simp

text \<open>
  Claim C8. For an in-range node id \<open>x\<close>, \<open>graph_remove_node\<close> succeeds; afterwards
  \<open>graph_has_edge\<close> from any other node \<open>y\<close> to \<open>x\<close> is false and
  \<open>graph_get_neighbors\<close> of \<open>x\<close> returns 0, whatever the edges were before.
\<close>
theorem remove_node_clears_edges:
  assumes "0 \<le> x" and "x < nodeCount g"
  shows "fst (graph_remove_node g x)
    \<and> (\<forall>y. y \<noteq> x \<longrightarrow> \<not> graph_has_edge (snd (graph_remove_node g x)) y x)
    \<and> (\<forall>buf m. fst (graph_get_neighbors (snd (graph_remove_node g x)) x buf m) = 0)"
proof -
  let ?g' = "snd (graph_remove_node g x)"
  note rd = graph_remove_node_in_range(2) [OF assms, unfolded rows_done_def]
  have cnt: "edgeCounts ?g' = (edgeCounts g)(x := 0)" using rd by simp
  have nc: "nodeCount ?g' = nodeCount g" using rd by simp
  have no_edge: "\<not> graph_has_edge ?g' y x" if "y \<noteq> x" for y
  proof
    assume "graph_has_edge ?g' y x"
    then have y: "0 \<le> y" "y < nodeCount g" and "has_edge_from ?g' y x 0"
      by (auto simp: graph_has_edge_def nc split: if_splits)
    then obtain j where j: "0 \<le> j" "j < edgeCounts g y" "to_e (edges ?g' y j) = x"
      "eactive (edges ?g' y j)"
      using that by (auto simp: has_edge_from_iff cnt split: if_splits)
    show False
    proof (cases "to_e (edges g y j) = x")
      case True
      then have "edges ?g' y j = (edges g y j)\<lparr>eactive := False\<rparr>"
        using rd y j that by simp
      then show False using j by simp
    next
      case False
      then have "edges ?g' y j = edges g y j"
        using rd y j that by simp
      then show False using j False by simp
    qed
  qed
  have "fst (graph_get_neighbors ?g' x buf m) = 0" for buf m
    using assms by (cases buf) (simp_all add: graph_get_neighbors_def neighbors_loop_empty cnt nc)
  then show ?thesis
    using graph_remove_node_in_range(1) [OF assms] no_edge by blast
qed

theorem remove_node_clears_edges_witness:
  "(0::int) \<le> 2 \<and> 2 < nodeCount abc_graph \<and> graph_has_edge abc_graph 0 2
   \<and> fst (graph_remove_node abc_graph 2) \<and> (0::int) \<noteq> 2
   \<and> \<not> graph_has_edge (snd (graph_remove_node abc_graph 2)) 0 2
   \<and> fst (graph_get_neighbors (snd (graph_remove_node abc_graph 2)) 2 (Some (\<lambda>_. 0)) 20) = 0"
proof -
  have h: "(0::int) \<le> 2" "2 < nodeCount abc_graph" "graph_has_edge abc_graph 0 2"
    by (simp_all add: graph_eval)
  from remove_node_clears_edges [OF h(1,2)] h show ?thesis by simp
qed

text \<open>
  Claim C3, as amended. \<open>graph_remove_node\<close> does not look at the node's flag: on an
  in-range id of an already inactive node it returns success, leaves the nodes and the
  node count as they are, sets the node's edge count to 0 and clears the active flag of
  every counted edge of another row that points to the node; nothing else changes.
\<close>
theorem remove_inactive_node:
  assumes "0 \<le> x" and "x < nodeCount g" and "\<not> active (nodes g x)"
  shows "fst (graph_remove_node g x)
    \<and> nodes (snd (graph_remove_node g x)) = nodes g
    \<and> nodeCount (snd (graph_remove_node g x)) = nodeCount g
    \<and> edgeCounts (snd (graph_remove_node g x)) = (edgeCounts g)(x := 0)
    \<and> (\<forall>i j. edges (snd (graph_remove_node g x)) i j =
         (if i \<noteq> x \<and> 0 \<le> i \<and> i < nodeCount g \<and> 0 \<le> j \<and> j < edgeCounts g i
             \<and> to_e (edges g i j) = x
          then (edges g i j)\<lparr>eactive := False\<rparr> else edges g i j))"
proof -
  note rd = graph_remove_node_in_range(2) [OF assms(1,2), unfolded rows_done_def]
  have "(nodes g x)\<lparr>active := False\<rparr> = nodes g x" using assms(3) by simp
  then have "nodes (snd (graph_remove_node g x)) = nodes g" using rd by simp
  moreover have "\<forall>i j. edges (snd (graph_remove_node g x)) i j =
         (if i \<noteq> x \<and> 0 \<le> i \<and> i < nodeCount g \<and> 0 \<le> j \<and> j < edgeCounts g i
             \<and> to_e (edges g i j) = x
          then (edges g i j)\<lparr>eactive := False\<rparr> else edges g i j)"
    using rd by auto
  ultimately show ?thesis
    using graph_remove_node_in_range(1) [OF assms(1,2)] rd by simp
qed

theorem remove_inactive_node_witness:
  "(0::int) \<le> 0 \<and> 0 < nodeCount abc_removed \<and> \<not> active (nodes abc_removed 0)
   \<and> fst (graph_remove_node abc_removed 0)
   \<and> nodes (snd (graph_remove_node abc_removed 0)) = nodes abc_removed
   \<and> edgeCounts (snd (graph_remove_node abc_removed 0)) = (edgeCounts abc_removed)(0 := 0)"
proof -
  have h: "(0::int) \<le> 0" "0 < nodeCount abc_removed" "\<not> active (nodes abc_removed 0)"
    by (simp_all add: graph_eval)
  from remove_inactive_node [OF h] h show ?thesis by simp
qed

text \<open>
  Removing node A a second time, after an edge from it was added, returns success and
  changes its edge count from 1 to 0.
\<close>

theorem remove_inactive_node_counterexample:
  "(0::int) \<le> 0 \<and> 0 < nodeCount abc_readded \<and> \<not> active (nodes abc_readded 0)
   \<and> fst (graph_remove_node abc_readded 0) = True
   \<and> edgeCounts abc_readded 0 = 1
   \<and> edgeCounts (snd (graph_remove_node abc_readded 0)) 0 = 0"
  by (simp add: graph_eval)

text \<open>
  Claim C4, as amended. \<open>graph_add_edge\<close> returns failure and leaves the graph unchanged
  whenever an endpoint is out of range. It succeeds exactly when both endpoints are in
  range, the source row has room and no active edge for the pair exists: the nodes'
  active flags are not consulted.
\<close>
theorem add_edge_range_check:
  "(frm < 0 \<or> nodeCount g \<le> frm \<or> t < 0 \<or> nodeCount g \<le> t
      \<longrightarrow> graph_add_edge g frm t w = (False, g))
   \<and> (fst (graph_add_edge g frm t w) \<longleftrightarrow>
        0 \<le> frm \<and> frm < nodeCount g \<and> 0 \<le> t \<and> t < nodeCount g
        \<and> edgeCounts g frm < MAX_EDGES_PER_NODE \<and> \<not> graph_has_edge g frm t)"
  by (auto simp: graph_add_edge_def Let_def)

theorem add_edge_range_check_witness:
  "nodeCount abc_graph \<le> 3 \<and> graph_add_edge abc_graph 0 3 (Fin 1) = (False, abc_graph)
   \<and> \<not> fst (graph_add_edge abc_graph 0 3 (Fin 1))"
proof -
  have h: "nodeCount abc_graph \<le> 3" by (simp add: graph_eval)
  from add_edge_range_check [of 0 abc_graph 3 "Fin 1"] h show ?thesis by simp
qed

text \<open>An edge whose source is the removed (inactive) node A is accepted.\<close>

theorem add_edge_inactive_counterexample:
  "\<not> active (nodes abc_removed 0)
   \<and> fst (graph_add_edge abc_removed 0 1 (Fin 5)) = True
   \<and> from_e (edges (snd (graph_add_edge abc_removed 0 1 (Fin 5))) 0 0) = 0
   \<and> eactive (edges (snd (graph_add_edge abc_removed 0 1 (Fin 5))) 0 0)"
  by (simp add: graph_eval)

section \<open>Single-precision arithmetic: rounding\<close>

lemma round_half_even_int [simp]: "round_half_even (of_int n) = n"
  by (simp add: round_half_even_def)

lemma round_half_even_mono: "q \<le> q' \<Longrightarrow> round_half_even q \<le> round_half_even q'"
proof -
  assume le: "q \<le> q'"
  then have "\<lfloor>q\<rfloor> \<le> \<lfloor>q'\<rfloor>" by (rule floor_mono)
  then consider "\<lfloor>q\<rfloor> < \<lfloor>q'\<rfloor>" | "\<lfloor>q\<rfloor> = \<lfloor>q'\<rfloor>" by linarith
  then show ?thesis
  proof cases
    case 1
    then show ?thesis by (auto simp: round_half_even_def Let_def)
  next
    case 2
    then show ?thesis using le by (auto simp: round_half_even_def Let_def)
  qed
qed

lemma p2_suc: "(2::real) powi (k + 1) = 2 * 2 powi k"
  by (simp add: power_int_add)

lemma p2_pred: "(2::real) powi k = 2 * 2 powi (k - 1)"
  using p2_suc [of "k - 1"] by simp

lemma ilog2_bounds:
  "0 < x \<Longrightarrow> 2 powi ilog2 x \<le> x \<and> x < 2 powi (ilog2 x + 1)"
proof (induction x rule: ilog2.induct)
  case (1 x)
  note x = \<open>0 < x\<close>
  consider "x < 1" | "2 \<le> x" | "1 \<le> x" "x < 2" by linarith
  then show ?case
  proof cases
    case 1
    then have e: "ilog2 x = ilog2 (2 * x) - 1" using x by (subst ilog2.simps) simp
    have "2 powi ilog2 (2 * x) \<le> 2 * x \<and> 2 * x < 2 powi (ilog2 (2 * x) + 1)"
      using "1.IH"(1) x 1 by simp
    then show ?thesis
      unfolding e using p2_pred [of "ilog2 (2 * x)"] p2_suc [of "ilog2 (2 * x)"] by simp
  next
    case 2
    then have e: "ilog2 x = ilog2 (x / 2) + 1" using x by (subst ilog2.simps) simp
    have "2 powi ilog2 (x / 2) \<le> x / 2 \<and> x / 2 < 2 powi (ilog2 (x / 2) + 1)"
      using "1.IH"(2) x 2 by simp
    then show ?thesis
      unfolding e using p2_suc [of "ilog2 (x / 2)"] p2_suc [of "ilog2 (x / 2) + 1"] by simp
  next
    case 3
    then have e: "ilog2 x = 0" by (subst ilog2.simps) simp
    show ?thesis unfolding e using 3 by simp
  qed
qed

lemma ilog2_eqI:
  assumes "2 powi k \<le> x" and "x < 2 powi (k + 1)"
  shows "ilog2 x = k"
proof -
  have x: "0 < x" using assms(1) zero_less_power_int [of "2::real" k] by linarith
  note b = ilog2_bounds [OF x]
  have "(2::real) powi k < 2 powi (ilog2 x + 1)" using assms(1) b by linarith
  then have 1: "k < ilog2 x + 1"
    using power_int_increasing [of "ilog2 x + 1" k "2::real"] by (cases "k < ilog2 x + 1") auto
  have "(2::real) powi ilog2 x < 2 powi (k + 1)" using assms(2) b by linarith
  then have 2: "ilog2 x < k + 1"
    using power_int_increasing [of "k + 1" "ilog2 x" "2::real"]
    by (cases "ilog2 x < k + 1") auto
  show ?thesis using 1 2 by simp
qed

lemma ilog2_less: "0 < x \<Longrightarrow> x < 2 powi k \<Longrightarrow> ilog2 x < k"
  using ilog2_bounds [of x] power_int_increasing [of k "ilog2 x" "2::real"]
  by (cases "ilog2 x < k") auto

lemma ilog2_mono: "0 < x \<Longrightarrow> x \<le> y \<Longrightarrow> ilog2 x \<le> ilog2 y"
  using ilog2_less [of x "ilog2 y + 1"] ilog2_bounds [of y] by auto

lemma f32_exp_ge: "- 149 \<le> f32_exp x"
  by (simp add: f32_exp_def)

lemma p2_pos: "0 < (2::real) powi k"
  by simp

lemma p2_mono: "a \<le> b \<Longrightarrow> (2::real) powi a \<le> 2 powi b"
  by (rule power_int_increasing) simp_all

lemma p2_add: "(2::real) powi (a + b) = 2 powi a * 2 powi b"
  by (simp add: power_int_add)

lemma p2_split: "f \<le> e \<Longrightarrow> (2::real) powi e = 2 ^ nat (e - f) * 2 powi f"
proof -
  assume "f \<le> e"
  then have "(2::real) powi (e - f) = 2 ^ nat (e - f)" by (simp add: power_int_def)
  then show ?thesis using p2_add [of "e - f" f] by simp
qed

lemma f32_exp_bound:
  assumes "x \<noteq> 0"
  shows "\<bar>x\<bar> < 2 powi (f32_exp x + 24)"
proof -
  have "\<bar>x\<bar> < 2 powi (ilog2 \<bar>x\<bar> + 1)" using ilog2_bounds [of "\<bar>x\<bar>"] assms by simp
  also have "\<dots> \<le> 2 powi (f32_exp x + 24)" by (rule p2_mono) (simp add: f32_exp_def)
  finally show ?thesis .
qed

lemma nearest_on_grid:
  assumes "x = of_int M * 2 powi f32_exp x"
  shows "f32_nearest x = x"
proof (cases "x = 0")
  case True
  then show ?thesis by (simp add: f32_nearest_def)
next
  case False
  have "x / 2 powi f32_exp x = of_int M"
    using assms p2_pos [of "f32_exp x"] by (simp add: field_simps)
  then show ?thesis using False assms by (simp add: f32_nearest_def)
qed

lemma f32_nearest_fix:
  assumes e: "- 149 \<le> e" and N: "\<bar>N\<bar> \<le> 2 ^ 24"
  shows "f32_nearest (of_int N * 2 powi e) = of_int N * 2 powi e"
proof (cases "N = 0")
  case True
  then show ?thesis by (simp add: f32_nearest_def)
next
  case False
  define r :: real where "r = of_int N * 2 powi e"
  define f where "f = f32_exp r"
  have r0: "r \<noteq> 0" using False by (simp add: r_def)
  have ar: "\<bar>r\<bar> = of_int \<bar>N\<bar> * 2 powi e" by (simp add: r_def abs_mult)
  have "\<exists>M. r = of_int M * 2 powi f"
  proof (cases "\<bar>N\<bar> < 2 ^ 24")
    case True
    then have "(of_int \<bar>N\<bar> :: real) < 2 ^ 24" by (metis of_int_less_numeral_power_cancel_iff)
    then have "\<bar>r\<bar> < 2 ^ 24 * 2 powi e" unfolding ar by (simp add: mult_strict_right_mono)
    also have "\<dots> = 2 powi (24 + e)" by (simp add: p2_add)
    finally have "ilog2 \<bar>r\<bar> < 24 + e" using r0 by (intro ilog2_less) simp_all
    then have f: "f \<le> e" using e by (simp add: f32_exp_def f_def)
    have "r = of_int (N * 2 ^ nat (e - f)) * 2 powi f"
      unfolding r_def by (simp add: p2_split [OF f])
    then show ?thesis by blast
  next
    case False
    with N have N24: "\<bar>N\<bar> = 2 ^ 24" by simp
    have a: "\<bar>r\<bar> = 2 powi (e + 24)" unfolding ar N24 by (simp add: p2_add)
    have "ilog2 \<bar>r\<bar> = e + 24"
      by (rule ilog2_eqI) (simp_all add: a power_int_strict_increasing)
    then have f: "f = e + 1" using e by (simp add: f32_exp_def f_def)
    have "N = 16777216 \<or> N = - 16777216" using N24 by (simp add: abs_if split: if_splits)
    then have "N = 2 * (N div 2)" by auto
    then have "(of_int N :: real) = 2 * of_int (N div 2)"
      by (metis of_int_mult of_int_numeral)
    then have "r = of_int (N div 2) * 2 powi f"
      unfolding r_def f by (simp add: p2_suc)
    then show ?thesis by blast
  qed
  then obtain M where "r = of_int M * 2 powi f32_exp r" unfolding f_def ..
  then have "f32_nearest r = r" by (rule nearest_on_grid)
  then show ?thesis by (simp add: r_def)
qed

lemma f32_nearest_form:
  assumes "x \<noteq> 0"
  shows "\<exists>N. f32_nearest x = of_int N * 2 powi f32_exp x \<and> \<bar>N\<bar> \<le> 2 ^ 24"
proof -
  define q where "q = x / 2 powi f32_exp x"
  have "\<bar>q\<bar> < 2 ^ 24"
  proof -
    have "\<bar>q\<bar> = \<bar>x\<bar> / 2 powi f32_exp x" by (simp add: q_def)
    also have "\<dots> < 2 powi (f32_exp x + 24) / 2 powi f32_exp x"
      using f32_exp_bound [OF assms] by (simp add: divide_strict_right_mono)
    also have "\<dots> = 2 ^ 24" by (simp add: p2_add)
    finally show ?thesis .
  qed
  then have q: "of_int (- (2 ^ 24)) \<le> q" "q \<le> of_int (2 ^ 24)" by simp_all
  have "round_half_even (of_int (- (2 ^ 24))) \<le> round_half_even q"
    using q(1) by (rule round_half_even_mono)
  moreover have "round_half_even q \<le> round_half_even (of_int (2 ^ 24))"
    using q(2) by (rule round_half_even_mono)
  ultimately have "\<bar>round_half_even q\<bar> \<le> 2 ^ 24"
    unfolding round_half_even_int by simp
  then show ?thesis using assms by (auto simp: f32_nearest_def q_def)
qed

lemma f32_nearest_idem: "f32_nearest (f32_nearest x) = f32_nearest x"
proof (cases "x = 0")
  case True
  then show ?thesis by (simp add: f32_nearest_def)
next
  case False
  from f32_nearest_form [OF this] obtain N
    where "f32_nearest x = of_int N * 2 powi f32_exp x" "\<bar>N\<bar> \<le> 2 ^ 24" by blast
  then show ?thesis using f32_nearest_fix [OF f32_exp_ge, of N x] by simp
qed

lemma f32_nearest_nonneg: "0 \<le> x \<Longrightarrow> 0 \<le> f32_nearest x"
  using round_half_even_mono [of "of_int 0" "x / 2 powi f32_exp x"]
  unfolding round_half_even_int by (simp add: f32_nearest_def)

lemma f32_nearest_mono:
  assumes "0 \<le> x" and "x \<le> y"
  shows "f32_nearest x \<le> f32_nearest y"
proof (cases "x = 0")
  case True
  then show ?thesis using f32_nearest_nonneg [of y] assms by (simp add: f32_nearest_def)
next
  case False
  then have x: "0 < x" and y: "0 < y" using assms by simp_all
  have kle: "ilog2 x \<le> ilog2 y" using ilog2_mono x assms(2) by simp
  then have fle: "f32_exp x \<le> f32_exp y" using x y by (simp add: f32_exp_def)
  show ?thesis
  proof (cases "f32_exp x = f32_exp y")
    case True
    have "x / 2 powi f32_exp y \<le> y / 2 powi f32_exp y"
      using assms(2) by (simp add: divide_right_mono)
    then have "round_half_even (x / 2 powi f32_exp y) \<le> round_half_even (y / 2 powi f32_exp y)"
      by (rule round_half_even_mono)
    then show ?thesis using x y True by (simp add: f32_nearest_def mult_right_mono)
  next
    case False
    with fle have lt: "f32_exp x < f32_exp y" by simp
    define k where "k = ilog2 y"
    have "- 149 < f32_exp y" using lt f32_exp_ge [of x] by linarith
    then have fy: "f32_exp y = k - 23"
      using y by (simp add: f32_exp_def k_def max_def split: if_splits)
    have "ilog2 x - 23 \<le> f32_exp x" using x by (simp add: f32_exp_def)
    then have klt: "ilog2 x < k" using lt fy by simp
    have xk: "x < 2 powi k"
    proof -
      have "x < 2 powi (ilog2 x + 1)" using ilog2_bounds [OF x] by simp
      also have "\<dots> \<le> 2 powi k" using klt by (intro p2_mono) simp
      finally show ?thesis .
    qed
    have ky: "2 powi k \<le> y" using ilog2_bounds [OF y] by (simp add: k_def)
    have fxk: "f32_exp x \<le> k" using lt fy by simp
    have "x / 2 powi f32_exp x \<le> 2 powi k / 2 powi f32_exp x"
      using xk by (simp add: divide_right_mono)
    also have "\<dots> = of_int (2 ^ nat (k - f32_exp x))"
      using p2_split [OF fxk] by simp
    finally have "round_half_even (x / 2 powi f32_exp x) \<le> 2 ^ nat (k - f32_exp x)"
      using round_half_even_mono round_half_even_int by metis
    then have "of_int (round_half_even (x / 2 powi f32_exp x)) * 2 powi f32_exp x
                 \<le> (of_int (2 ^ nat (k - f32_exp x)) :: real) * 2 powi f32_exp x"
      by (intro mult_right_mono) (simp_all only: of_int_le_iff zero_le_power_int zero_le_numeral)
    then have 1: "f32_nearest x \<le> 2 powi k"
      using x p2_split [OF fxk] by (simp add: f32_nearest_def)
    have "(of_int (2 ^ 23) :: real) = 2 powi k / 2 powi f32_exp y"
      unfolding fy using p2_split [of "k - 23" k] by simp
    also have "\<dots> \<le> y / 2 powi f32_exp y" using ky by (simp add: divide_right_mono)
    finally have "2 ^ 23 \<le> round_half_even (y / 2 powi f32_exp y)"
      using round_half_even_mono round_half_even_int by metis
    then have "(of_int (2 ^ 23) :: real) * 2 powi f32_exp y
                 \<le> of_int (round_half_even (y / 2 powi f32_exp y)) * 2 powi f32_exp y"
      by (intro mult_right_mono) (simp_all only: of_int_le_iff zero_le_power_int zero_le_numeral)
    then have 2: "2 powi k \<le> f32_nearest y"
      using y unfolding fy using p2_split [of "k - 23" k] by (simp add: f32_nearest_def fy)
    show ?thesis using 1 2 by linarith
  qed
qed

lemma FLT_MAX_pos: "0 < FLT_MAX"
  by (simp add: FLT_MAX_def)

lemma round_f32_Fin: "round_f32 x = Fin r \<Longrightarrow> r = f32_nearest x \<and> \<bar>r\<bar> \<le> FLT_MAX"
  by (auto simp: round_f32_def Let_def split: if_splits)

lemma round_f32_fix: "f32_nearest r = r \<Longrightarrow> \<bar>r\<bar> \<le> FLT_MAX \<Longrightarrow> round_f32 r = Fin r"
  by (auto simp: round_f32_def Let_def)

lemma round_f32_idem:
  assumes "round_f32 x = Fin r"
  shows "round_f32 r = Fin r"
proof -
  have r: "r = f32_nearest x" "\<bar>r\<bar> \<le> FLT_MAX" using round_f32_Fin [OF assms] by blast+
  have "f32_nearest r = r" unfolding r(1) by (rule f32_nearest_idem)
  then show ?thesis using r(2) by (rule round_f32_fix)
qed

lemma round_f32_int:
  assumes "x \<in> \<int>" and "\<bar>x\<bar> \<le> 16777216"
  shows "round_f32 x = Fin x"
proof -
  from assms(1) obtain N where x: "x = of_int N" by (auto elim: Ints_cases)
  then have "\<bar>N\<bar> \<le> 2 ^ 24" using assms(2) by simp
  then have "f32_nearest (of_int N * 2 powi 0) = of_int N * 2 powi 0"
    by (intro f32_nearest_fix) simp_all
  then have "f32_nearest x = x" by (simp add: x)
  moreover have "\<bar>x\<bar> \<le> FLT_MAX" using assms(2) by (simp add: FLT_MAX_def)
  ultimately show ?thesis by (rule round_f32_fix)
qed

lemma round_f32_FLT_MAX: "round_f32 FLT_MAX = Fin FLT_MAX"
proof -
  have "f32_nearest (of_int 16777215 * 2 powi 104) = of_int 16777215 * 2 powi 104"
    by (intro f32_nearest_fix) simp_all
  then have "f32_nearest FLT_MAX = FLT_MAX" by (simp add: FLT_MAX_def)
  then show ?thesis using FLT_MAX_pos by (intro round_f32_fix) simp_all
qed

text \<open>A tie goes to the even significand: \<open>2 ^ 24 + 1\<close> is rounded down to \<open>2 ^ 24\<close>.\<close>

lemma round_f32_tie: "round_f32 16777217 = Fin 16777216"
proof -
  have "ilog2 16777217 = 24" by (rule ilog2_eqI) simp_all
  then have e: "f32_exp 16777217 = 1" by (simp add: f32_exp_def)
  have "round_half_even (16777217 / 2) = 8388608"
    by (simp add: round_half_even_def Let_def)
  then have "f32_nearest 16777217 = 16777216" by (simp add: f32_nearest_def e)
  then show ?thesis by (simp add: round_f32_def FLT_MAX_def)
qed

text \<open>The square root: \<open>sqrtf\<close> can be computed with integers.\<close>

lemma isqrt_bounds:
  "0 \<le> n \<Longrightarrow> 0 \<le> isqrt n \<and> isqrt n * isqrt n \<le> n \<and> n < (isqrt n + 1) * (isqrt n + 1)"
proof (induction n rule: isqrt.induct)
  case (1 n)
  show ?case
  proof (cases "n < 1")
    case True
    then have "n = 0" using "1.prems" by simp
    then show ?thesis by (subst (1 2 3 4 5) isqrt.simps) simp
  next
    case False
    define m where "m = n div 4"
    define r where "r = isqrt m"
    have m: "0 \<le> m" "4 * m \<le> n" "n \<le> 4 * m + 3" using False by (simp_all add: m_def)
    have IH: "0 \<le> r \<and> r * r \<le> m \<and> m < (r + 1) * (r + 1)"
      using "1.IH" False m(1) by (simp add: m_def r_def)
    have lo: "(2 * r) * (2 * r) \<le> n" using IH m(2) by (simp add: algebra_simps)
    have "m + 1 \<le> (r + 1) * (r + 1)" using IH by simp
    then have hi: "n < (2 * r + 2) * (2 * r + 2)" using m(3) by (simp add: algebra_simps)
    have e: "isqrt n = (if (2 * r + 1) * (2 * r + 1) \<le> n then 2 * r + 1 else 2 * r)"
      using False by (subst isqrt.simps) (simp add: Let_def m_def r_def)
    show ?thesis
    proof (cases "(2 * r + 1) * (2 * r + 1) \<le> n")
      case True
      then show ?thesis unfolding e using IH hi by (simp add: algebra_simps)
    next
      case False
      then show ?thesis unfolding e using IH lo by (simp add: algebra_simps)
    qed
  qed
qed

lemma square_less_imp_less: "0 \<le> (b::real) \<Longrightarrow> a * a < b * b \<Longrightarrow> a < b"
  using power2_less_imp_less [of a b] by (simp add: power2_eq_square)

lemma square_le_imp_le: "0 \<le> (b::real) \<Longrightarrow> a * a \<le> b * b \<Longrightarrow> a \<le> b"
  using power2_le_imp_le [of a b] by (simp add: power2_eq_square)

lemma floor_sqrt:
  fixes q :: real
  assumes "0 \<le> q"
  shows "\<lfloor>q\<rfloor> = isqrt \<lfloor>q * q\<rfloor>"
proof -
  define m where "m = isqrt \<lfloor>q * q\<rfloor>"
  define r :: real where "r = of_int m"
  have "0 \<le> \<lfloor>q * q\<rfloor>" using assms by simp
  from isqrt_bounds [OF this]
  have b: "0 \<le> m" "m * m \<le> \<lfloor>q * q\<rfloor>" "\<lfloor>q * q\<rfloor> < (m + 1) * (m + 1)"
    by (simp_all add: m_def)
  have r0: "0 \<le> r" using b(1) by (simp add: r_def)
  have "of_int (m * m) \<le> q * q" using b(2) by (simp only: le_floor_iff)
  then have "r * r \<le> q * q" by (simp add: r_def)
  with assms have lo: "r \<le> q" by (rule square_le_imp_le)
  have "q * q < of_int ((m + 1) * (m + 1))" using b(3) by (simp only: floor_less_iff)
  then have "q * q < (r + 1) * (r + 1)" by (simp add: r_def)
  moreover have "0 \<le> r + 1" using r0 by simp
  ultimately have hi: "q < r + 1" by (rule square_less_imp_less [rotated])
  have "\<lfloor>q\<rfloor> = m"
  proof (rule floor_unique)
    show "of_int m \<le> q" using lo by (simp add: r_def)
    show "q < of_int m + 1" using hi by (simp add: r_def)
  qed
  then show ?thesis by (simp add: m_def)
qed

lemma ilog2_sqrt:
  assumes "0 < x"
  shows "ilog2 (sqrt x) = ilog2 x div 2"
proof (rule ilog2_eqI)
  define k where "k = ilog2 x div 2"
  have k: "2 * k \<le> ilog2 x" "ilog2 x + 1 \<le> 2 * (k + 1)" by (simp_all add: k_def)
  note b = ilog2_bounds [OF assms]
  have sq: "(2::real) powi (2 * j) = (2 powi j)\<^sup>2" for j
    using p2_add [of j j] by (simp add: power2_eq_square)
  have "(2 powi k)\<^sup>2 \<le> (2::real) powi ilog2 x" unfolding sq [symmetric] using k(1) by (rule p2_mono)
  also have "\<dots> \<le> x" using b by simp
  finally have "2 powi k \<le> sqrt x" by (rule real_le_rsqrt)
  then show "2 powi (ilog2 x div 2) \<le> sqrt x" by (simp add: k_def)
  have "x < 2 powi (ilog2 x + 1)" using b by simp
  also have "\<dots> \<le> (2 powi (k + 1))\<^sup>2" unfolding sq [symmetric] using k(2) by (rule p2_mono)
  finally have "sqrt x < 2 powi (k + 1)" by (intro real_less_lsqrt) simp_all
  then show "sqrt x < 2 powi (ilog2 x div 2 + 1)" by (simp add: k_def)
qed

lemma f32_nearest_sqrt:
  assumes "0 < x"
  shows "f32_nearest (sqrt x) = sqrt_nearest x"
proof -
  define e where "e = max (ilog2 x div 2 - 23) (- 149)"
  define q where "q = sqrt x / 2 powi e"
  define n where "n = isqrt \<lfloor>q * q\<rfloor>"
  have s: "0 < sqrt x" using assms by simp
  have fe: "f32_exp (sqrt x) = e" using s by (simp add: f32_exp_def e_def ilog2_sqrt [OF assms])
  have q0: "0 \<le> q" using s by (simp add: q_def)
  have "(2::real) powi (2 * e) = 2 powi e * 2 powi e" using p2_add [of e e] by simp
  then have y: "x / 2 powi (2 * e) = q * q" using assms by (simp add: q_def)
  have fl: "\<lfloor>q\<rfloor> = n" unfolding n_def using q0 by (rule floor_sqrt)
  have n0: "0 \<le> n" using q0 fl by (metis zero_le_floor)
  have cmp: "q - of_int n < 1 / 2 \<longleftrightarrow> q * q < (of_int n + 1 / 2) * (of_int n + 1 / 2)"
    "1 / 2 < q - of_int n \<longleftrightarrow> (of_int n + 1 / 2) * (of_int n + 1 / 2) < q * q"
  proof -
    have h: "(0::real) \<le> of_int n + 1 / 2" using n0 by simp
    show "q - of_int n < 1 / 2 \<longleftrightarrow> q * q < (of_int n + 1 / 2) * (of_int n + 1 / 2)"
    proof
      assume "q - of_int n < 1 / 2"
      then have "q < of_int n + 1 / 2" by simp
      then show "q * q < (of_int n + 1 / 2) * (of_int n + 1 / 2)"
        using q0 by (intro mult_strict_mono') simp_all
    next
      assume a: "q * q < (of_int n + 1 / 2) * (of_int n + 1 / 2)"
      show "q - of_int n < 1 / 2"
      proof (rule ccontr)
        assume "\<not> q - of_int n < 1 / 2"
        then have "of_int n + 1 / 2 \<le> q" by simp
        then have "(of_int n + 1 / 2) * (of_int n + 1 / 2) \<le> q * q"
          using h by (intro mult_mono) simp_all
        then show False using a by simp
      qed
    qed
    show "1 / 2 < q - of_int n \<longleftrightarrow> (of_int n + 1 / 2) * (of_int n + 1 / 2) < q * q"
    proof
      assume "1 / 2 < q - of_int n"
      then have "of_int n + 1 / 2 < q" by simp
      then show "(of_int n + 1 / 2) * (of_int n + 1 / 2) < q * q"
        using h by (intro mult_strict_mono') simp_all
    next
      assume a: "(of_int n + 1 / 2) * (of_int n + 1 / 2) < q * q"
      show "1 / 2 < q - of_int n"
      proof (rule ccontr)
        assume "\<not> 1 / 2 < q - of_int n"
        then have "q \<le> of_int n + 1 / 2" by simp
        then have "q * q \<le> (of_int n + 1 / 2) * (of_int n + 1 / 2)"
          using q0 by (intro mult_mono) simp_all
        then show False using a by simp
      qed
    qed
  qed
  have r: "round_half_even q =
      (if q * q < (of_int n + 1 / 2) * (of_int n + 1 / 2) then n
       else if (of_int n + 1 / 2) * (of_int n + 1 / 2) < q * q then n + 1
       else if even n then n else n + 1)"
    unfolding round_half_even_def Let_def fl cmp ..
  have sn: "sqrt_nearest x = of_int (round_half_even q) * 2 powi e"
    unfolding r sqrt_nearest_def Let_def e_def [symmetric] y n_def [symmetric] ..
  have "f32_nearest (sqrt x) = of_int (round_half_even q) * 2 powi e"
    using s by (simp add: f32_nearest_def fe q_def)
  then show ?thesis using sn by simp
qed

lemma round_f32_sqrt:
  assumes "0 < x"
  shows "round_f32 (sqrt x) =
    (let r = sqrt_nearest x in if FLT_MAX < r then PInf else Fin r)"
proof -
  have "0 \<le> f32_nearest (sqrt x)" using assms by (intro f32_nearest_nonneg) simp
  then show ?thesis
    using FLT_MAX_pos by (simp add: round_f32_def Let_def f32_nearest_sqrt [OF assms])
qed

lemma sqrtf_code [code]:
  "sqrtf NaN = NaN"
  "sqrtf PInf = PInf"
  "sqrtf MInf = NaN"
  "sqrtf (Fin x) =
     (if x < 0 then NaN else if x = 0 then Fin 0
      else let r = sqrt_nearest x in if FLT_MAX < r then PInf else Fin r)"
  by (simp_all add: round_f32_sqrt round_f32_int)

section \<open>Single-precision arithmetic: order and addition\<close>

lemma flt_iff: "flt a b \<longleftrightarrow> a \<noteq> NaN \<and> b \<noteq> NaN \<and> a < b"
  by (cases a; cases b) (auto simp: less_c_float_def)

lemma fle_iff: "fle a b \<longleftrightarrow> a \<noteq> NaN \<and> b \<noteq> NaN \<and> a \<le> b"
  by (cases a; cases b) (auto simp: less_eq_c_float_def)

lemma Fin_le_iff [simp]: "Fin x \<le> Fin y \<longleftrightarrow> x \<le> y"
  by (simp add: less_eq_c_float_def)

lemma Fin_less_iff [simp]: "Fin x < Fin y \<longleftrightarrow> x < y"
  by (simp add: less_c_float_def)

lemma Fin_less_PInf [simp]: "Fin x < PInf" "Fin x \<le> PInf" "\<not> PInf \<le> Fin x" "\<not> PInf < Fin x"
  by (simp_all add: less_c_float_def less_eq_c_float_def)

lemma NaN_greatest [simp]: "a \<le> NaN" "\<not> NaN < a" "\<not> NaN \<le> Fin x" "\<not> NaN \<le> PInf"
  by (cases a; simp add: less_c_float_def less_eq_c_float_def)+

lemma le_Fin_number: "a \<le> Fin x \<Longrightarrow> a \<noteq> NaN"
  by auto

lemma is_cost_cases:
  assumes "is_cost c"
  obtains "c = PInf" | r where "c = Fin r" "0 \<le> r" "round_f32 r = Fin r"
  using assms by (cases c) auto

lemma weight_cases:
  assumes "fle (Fin 0) w"
  obtains "w = PInf" | b where "w = Fin b" "0 \<le> b"
  using assms by (cases w) auto

lemma is_cost_number: "is_cost c \<Longrightarrow> c \<noteq> NaN"
  by auto

lemma is_cost_nonneg: "is_cost c \<Longrightarrow> Fin 0 \<le> c"
  by (cases c) auto

lemma is_cost_zero: "is_cost (Fin 0)"
  by (simp add: round_f32_int)

lemma is_cost_FLT_MAX: "is_cost (Fin FLT_MAX)"
  using FLT_MAX_pos by (simp add: round_f32_FLT_MAX)

lemma round_f32_is_cost:
  assumes "0 \<le> x"
  shows "is_cost (round_f32 x)"
proof -
  have n: "0 \<le> f32_nearest x" using assms by (rule f32_nearest_nonneg)
  show ?thesis
  proof (cases "FLT_MAX < f32_nearest x")
    case True
    then show ?thesis by (simp add: round_f32_def)
  next
    case False
    then have r: "round_f32 x = Fin (f32_nearest x)"
      using n FLT_MAX_pos by (simp add: round_f32_def)
    then show ?thesis using n round_f32_idem [OF r] by simp
  qed
qed

lemma round_f32_mono:
  assumes "0 \<le> x" and "x \<le> y"
  shows "round_f32 x \<le> round_f32 y"
proof -
  have "f32_nearest x \<le> f32_nearest y" using assms by (rule f32_nearest_mono)
  moreover have "0 \<le> f32_nearest x" using assms(1) by (rule f32_nearest_nonneg)
  ultimately show ?thesis using FLT_MAX_pos by (simp add: round_f32_def Let_def)
qed

lemma fadd_is_cost:
  assumes "is_cost c" and "fle (Fin 0) w"
  shows "is_cost (fadd c w)"
  using assms(1)
proof (cases rule: is_cost_cases)
  case 1
  then show ?thesis using assms(2) by (cases w) auto
next
  case (2 r)
  from assms(2) show ?thesis
  proof (cases rule: weight_cases)
    case 1
    then show ?thesis using 2 by simp
  next
    case (2 b)
    then show ?thesis using \<open>c = Fin r\<close> \<open>0 \<le> r\<close> by (simp add: round_f32_is_cost)
  qed
qed

lemma fadd_mono:
  assumes a: "is_cost a" and b: "is_cost b" and le: "a \<le> b" and w: "fle (Fin 0) w"
  shows "fadd a w \<le> fadd b w"
  using w
proof (cases rule: weight_cases)
  case 1
  then show ?thesis using a b by (cases a; cases b) auto
next
  case (2 x)
  show ?thesis
    using b
  proof (cases rule: is_cost_cases)
    case 1
    have "fadd a w \<noteq> NaN" using fadd_is_cost [OF a w] by auto
    then show ?thesis using 1 2 by (cases "fadd a w") (auto simp: less_eq_c_float_def)
  next
    case (2 rb)
    then obtain ra where ra: "a = Fin ra" "0 \<le> ra" using a le by (cases a) auto
    then have "ra \<le> rb" using le 2 by simp
    then show ?thesis using ra 2 \<open>w = Fin x\<close> \<open>0 \<le> x\<close> by (simp add: round_f32_mono)
  qed
qed

lemma fadd_increasing:
  assumes a: "is_cost a" and w: "fle (Fin 0) w"
  shows "a \<le> fadd a w"
  using a
proof (cases rule: is_cost_cases)
  case 1
  then show ?thesis using w by (cases w) auto
next
  case (2 r)
  from w show ?thesis
  proof (cases rule: weight_cases)
    case 1
    then show ?thesis using 2 by simp
  next
    case (2 b)
    have "round_f32 r \<le> round_f32 (r + b)" using \<open>0 \<le> r\<close> 2 by (intro round_f32_mono) simp_all
    then show ?thesis using 2 \<open>round_f32 r = Fin r\<close> \<open>a = Fin r\<close> by simp
  qed
qed

lemma fadd_zero: "is_cost a \<Longrightarrow> fadd a (Fin 0) = a"
  by (cases a) auto

lemma fmul_zero: "fmul (Fin 0) (Fin w) = Fin 0"
  by (simp add: round_f32_int)

section \<open>The priority queue keeps the heap order\<close>

lemma parent_less: "0 < i \<Longrightarrow> (i - 1) div 2 < (i::nat)"
  by arith

text \<open>On slots that hold numbers the heap order of C is the one of the linear order.\<close>

lemma heap_inv_ok:
  assumes "heap_inv pq"
  shows "heap_ok pq"
  unfolding heap_ok_def
proof (intro allI impI)
  fix i assume i: "0 < i \<and> i < pq_size pq"
  then have "(i - 1) div 2 < pq_size pq" by arith
  then show "fle (pq_fScore (pq_nodes pq ((i - 1) div 2))) (pq_fScore (pq_nodes pq i))"
    using assms i by (simp add: heap_inv_def heap_upto_def keys_ok_def fle_iff)
qed

lemma keys_ok_swap: "keys_ok n a \<Longrightarrow> i < n \<Longrightarrow> j < n \<Longrightarrow> keys_ok n (pq_swap a i j)"
  by (simp add: keys_ok_def pq_swap_def)

lemma heapify_up_fields:
  "pq_size (pq_heapify_up pq idx) = pq_size pq \<and> pq_capacity (pq_heapify_up pq idx) = pq_capacity pq"
proof (induction pq idx rule: pq_heapify_up.induct)
  case (1 pq idx)
  then show ?case by (subst (1 2) pq_heapify_up.simps) auto
qed

lemma swap_up_step:
  fixes a :: "nat \<Rightarrow> 'a::linorder PQNode"
  assumes ex: "heap_except_up n a idx" and idx: "0 < idx" "idx < n"
    and lt: "pq_fScore (a idx) < pq_fScore (a ((idx - 1) div 2))"
  shows "heap_except_up n (pq_swap a idx ((idx - 1) div 2)) ((idx - 1) div 2)"
proof -
  let ?p = "(idx - 1) div 2"
  let ?a = "pq_swap a idx ?p"
  have p: "?p < idx" using idx by arith
  have ap: "?a ?p = a idx" and ai: "?a idx = a ?p" using p by (auto simp: pq_swap_def)
  have other: "\<And>k. k \<noteq> idx \<Longrightarrow> k \<noteq> ?p \<Longrightarrow> ?a k = a k" by (simp add: pq_swap_def)
  from ex have h1: "\<And>i. 0 < i \<Longrightarrow> i < n \<Longrightarrow> i \<noteq> idx \<Longrightarrow>
        pq_fScore (a ((i - 1) div 2)) \<le> pq_fScore (a i)"
    and h2: "\<And>c. c < n \<Longrightarrow> 0 < c \<Longrightarrow> (c - 1) div 2 = idx \<Longrightarrow>
        pq_fScore (a ?p) \<le> pq_fScore (a c)"
    using idx by (auto simp: heap_except_up_def)
  have g1: "pq_fScore (?a ((i - 1) div 2)) \<le> pq_fScore (?a i)"
    if i: "0 < i" "i < n" "i \<noteq> ?p" for i
  proof (cases "i = idx")
    case True
    then show ?thesis using ap ai lt by simp
  next
    case False
    have ii: "?a i = a i" using other False i by simp
    consider "(i - 1) div 2 = ?p" | "(i - 1) div 2 = idx" | "(i - 1) div 2 \<noteq> ?p" "(i - 1) div 2 \<noteq> idx"
      by blast
    then show ?thesis
    proof cases
      case 1
      have "pq_fScore (a idx) < pq_fScore (a ?p)" by (rule lt)
      also have "\<dots> \<le> pq_fScore (a i)" using h1 [OF i(1,2) False] 1 by simp
      finally show ?thesis using 1 ap ii by simp
    next
      case 2
      then show ?thesis using h2 [OF i(2,1)] ai ii by simp
    next
      case 3
      then show ?thesis using h1 [OF i(1,2) False] other ii by simp
    qed
  qed
  have g2: "pq_fScore (?a ((?p - 1) div 2)) \<le> pq_fScore (?a c)"
    if c: "0 < ?p" "c < n" "0 < c" "(c - 1) div 2 = ?p" for c
  proof -
    have pp: "(?p - 1) div 2 < ?p" using c(1) by arith
    then have app: "?a ((?p - 1) div 2) = a ((?p - 1) div 2)" using other p by simp
    have le_p: "pq_fScore (a ((?p - 1) div 2)) \<le> pq_fScore (a ?p)"
      using h1 [of ?p] c(1) p idx by simp
    show ?thesis
    proof (cases "c = idx")
      case True
      then show ?thesis using ai app le_p by simp
    next
      case False
      have "c \<noteq> ?p" using c by arith
      then have "?a c = a c" using other False by simp
      moreover have "pq_fScore (a ?p) \<le> pq_fScore (a c)" using h1 [of c] c False by simp
      ultimately show ?thesis using app le_p by simp
    qed
  qed
  show ?thesis unfolding heap_except_up_def using g1 g2 by blast
qed

lemma heapify_up_heap:
  assumes "heap_except_up n (pq_nodes pq) idx" and "idx < n" and "keys_ok n (pq_nodes pq)"
  shows "heap_upto n (pq_nodes (pq_heapify_up pq idx))
         \<and> keys_ok n (pq_nodes (pq_heapify_up pq idx))"
  using assms
proof (induction pq idx rule: pq_heapify_up.induct)
  case (1 pq idx)
  let ?p = "(idx - 1) div 2"
  have p: "?p < n" using "1.prems"(2) by arith
  have num: "pq_fScore (pq_nodes pq idx) \<noteq> NaN" "pq_fScore (pq_nodes pq ?p) \<noteq> NaN"
    using "1.prems"(2,3) p by (simp_all add: keys_ok_def)
  show ?case
  proof (cases "0 < idx \<and> flt (pq_fScore (pq_nodes pq idx)) (pq_fScore (pq_nodes pq ?p))")
    case True
    let ?pq = "pq\<lparr>pq_nodes := pq_swap (pq_nodes pq) idx ?p\<rparr>"
    have lt: "pq_fScore (pq_nodes pq idx) < pq_fScore (pq_nodes pq ?p)"
      using True by (simp add: flt_iff)
    have "heap_except_up n (pq_nodes ?pq) ?p"
      using swap_up_step [OF "1.prems"(1) _ "1.prems"(2) lt] True by simp
    moreover have "keys_ok n (pq_nodes ?pq)"
      using keys_ok_swap [OF "1.prems"(3,2) p] by simp
    ultimately have "heap_upto n (pq_nodes (pq_heapify_up ?pq ?p))
        \<and> keys_ok n (pq_nodes (pq_heapify_up ?pq ?p))"
      using "1.IH" True p by blast
    then show ?thesis using True by (subst (1 2) pq_heapify_up.simps) simp
  next
    case False
    have "heap_upto n (pq_nodes pq)"
      unfolding heap_upto_def
    proof (intro allI impI)
      fix i assume i: "0 < i \<and> i < n"
      show "pq_fScore (pq_nodes pq ((i - 1) div 2)) \<le> pq_fScore (pq_nodes pq i)"
      proof (cases "i = idx")
        case True
        then show ?thesis using False i num by (auto simp: flt_iff)
      next
        case ne: False
        then show ?thesis using "1.prems"(1) i by (auto simp: heap_except_up_def)
      qed
    qed
    then show ?thesis using False "1.prems"(3) by (subst (1 2) pq_heapify_up.simps) auto
  qed
qed

lemma heapify_down_fields:
  "pq_size (pq_heapify_down pq idx) = pq_size pq
   \<and> pq_capacity (pq_heapify_down pq idx) = pq_capacity pq"
proof (induction pq idx rule: pq_heapify_down.induct)
  case (1 pq idx)
  then show ?case by (subst (1 2) pq_heapify_down.simps) auto
qed

lemma smallest_of_range:
  shows "smallest_of pq idx \<in> {idx, 2 * idx + 1, 2 * idx + 2}"
    and "smallest_of pq idx \<noteq> idx \<Longrightarrow> smallest_of pq idx < pq_size pq"
  unfolding smallest_of_def Let_def
  by (auto split: if_splits)

lemma smallest_of_props:
  assumes "keys_ok (pq_size pq) (pq_nodes pq)" and "idx < pq_size pq"
  shows "smallest_of pq idx \<in> {idx, 2 * idx + 1, 2 * idx + 2}"
    and "smallest_of pq idx \<noteq> idx \<Longrightarrow> smallest_of pq idx < pq_size pq"
    and "pq_fScore (pq_nodes pq (smallest_of pq idx)) \<le> pq_fScore (pq_nodes pq idx)"
    and "smallest_of pq idx \<noteq> idx \<Longrightarrow>
           pq_fScore (pq_nodes pq (smallest_of pq idx)) < pq_fScore (pq_nodes pq idx)"
    and "2 * idx + 1 < pq_size pq \<Longrightarrow>
           pq_fScore (pq_nodes pq (smallest_of pq idx)) \<le> pq_fScore (pq_nodes pq (2 * idx + 1))"
    and "2 * idx + 2 < pq_size pq \<Longrightarrow>
           pq_fScore (pq_nodes pq (smallest_of pq idx)) \<le> pq_fScore (pq_nodes pq (2 * idx + 2))"
  using assms unfolding smallest_of_def Let_def keys_ok_def
  by (auto simp: flt_iff split: if_splits)

lemma child_cases: "0 < (c::nat) \<Longrightarrow> (c - 1) div 2 = idx \<Longrightarrow> c = 2 * idx + 1 \<or> c = 2 * idx + 2"
  by arith

lemma swap_down_step:
  assumes ex: "heap_except_down (pq_size pq) (pq_nodes pq) idx"
    and ne: "smallest_of pq idx \<noteq> idx"
    and keys: "keys_ok (pq_size pq) (pq_nodes pq)" and idx: "idx < pq_size pq"
  shows "heap_except_down (pq_size pq) (pq_swap (pq_nodes pq) idx (smallest_of pq idx))
           (smallest_of pq idx)"
proof -
  let ?n = "pq_size pq" and ?s = "smallest_of pq idx"
  let ?b = "pq_nodes pq"
  let ?a = "pq_swap ?b idx ?s"
  note sp = smallest_of_props [OF keys idx]
  have s_child: "?s = 2 * idx + 1 \<or> ?s = 2 * idx + 2" using sp(1) ne by auto
  have s_par: "(?s - 1) div 2 = idx" "0 < ?s" "idx < ?s" using s_child by auto
  have s_n: "?s < ?n" using sp(2) ne by simp
  have ai: "?a idx = ?b ?s" and as: "?a ?s = ?b idx" using ne by (auto simp: pq_swap_def)
  have other: "\<And>k. k \<noteq> idx \<Longrightarrow> k \<noteq> ?s \<Longrightarrow> ?a k = ?b k" by (simp add: pq_swap_def)
  from ex have h1: "\<And>i. 0 < i \<Longrightarrow> i < ?n \<Longrightarrow> (i - 1) div 2 \<noteq> idx \<Longrightarrow>
        pq_fScore (?b ((i - 1) div 2)) \<le> pq_fScore (?b i)"
    and h2: "\<And>c. 0 < idx \<Longrightarrow> c < ?n \<Longrightarrow> 0 < c \<Longrightarrow> (c - 1) div 2 = idx \<Longrightarrow>
        pq_fScore (?b ((idx - 1) div 2)) \<le> pq_fScore (?b c)"
    by (auto simp: heap_except_down_def)
  have g1: "pq_fScore (?a ((i - 1) div 2)) \<le> pq_fScore (?a i)"
    if i: "0 < i" "i < ?n" "(i - 1) div 2 \<noteq> ?s" for i
  proof (cases "(i - 1) div 2 = idx")
    case True
    then have ic: "i = 2 * idx + 1 \<or> i = 2 * idx + 2" using child_cases i by blast
    show ?thesis
    proof (cases "i = ?s")
      case True
      then show ?thesis using ai as sp(3) s_par by simp
    next
      case False
      have "i \<noteq> idx" using ic by arith
      then have "?a i = ?b i" using other False by simp
      moreover have "pq_fScore (?b ?s) \<le> pq_fScore (?b i)"
        using ic sp(5,6) i by auto
      ultimately show ?thesis using True ai by simp
    qed
  next
    case False
    have i_s: "i \<noteq> ?s" using False s_par by auto
    have par: "?a ((i - 1) div 2) = ?b ((i - 1) div 2)" using other False i(3) by simp
    show ?thesis
    proof (cases "i = idx")
      case True
      then have "0 < idx" using i by simp
      from h2 [OF this s_n s_par(2) s_par(1)] show ?thesis using True ai par by simp
    next
      case ni: False
      then have "?a i = ?b i" using other i_s by simp
      then show ?thesis using h1 [OF i(1,2) False] par by simp
    qed
  qed
  have g2: "pq_fScore (?a ((?s - 1) div 2)) \<le> pq_fScore (?a c)"
    if c: "c < ?n" "0 < c" "(c - 1) div 2 = ?s" for c
  proof -
    have "c \<noteq> ?s" "c \<noteq> idx" using c s_par by arith+
    then have "?a c = ?b c" using other by simp
    moreover have "pq_fScore (?b ?s) \<le> pq_fScore (?b c)"
      using h1 [of c] c s_par by simp
    ultimately show ?thesis using s_par ai by simp
  qed
  show ?thesis unfolding heap_except_down_def using g1 g2 by blast
qed

lemma heapify_down_heap:
  assumes "heap_except_down (pq_size pq) (pq_nodes pq) idx"
    and "keys_ok (pq_size pq) (pq_nodes pq)" and "idx < pq_size pq"
  shows "heap_upto (pq_size pq) (pq_nodes (pq_heapify_down pq idx))
         \<and> keys_ok (pq_size pq) (pq_nodes (pq_heapify_down pq idx))"
  using assms
proof (induction pq idx rule: pq_heapify_down.induct)
  case (1 pq idx)
  let ?s = "smallest_of pq idx"
  note sp = smallest_of_props [OF "1.prems"(2,3)]
  show ?case
  proof (cases "?s \<noteq> idx")
    case True
    let ?pq = "pq\<lparr>pq_nodes := pq_swap (pq_nodes pq) idx ?s\<rparr>"
    have s: "?s < pq_size pq" using sp(2) True by simp
    have "heap_except_down (pq_size ?pq) (pq_nodes ?pq) ?s"
      using swap_down_step [OF "1.prems"(1) True "1.prems"(2,3)] by simp
    moreover have "keys_ok (pq_size ?pq) (pq_nodes ?pq)"
      using keys_ok_swap [OF "1.prems"(2,3) s] by simp
    ultimately have "heap_upto (pq_size ?pq) (pq_nodes (pq_heapify_down ?pq ?s))
        \<and> keys_ok (pq_size ?pq) (pq_nodes (pq_heapify_down ?pq ?s))"
      using "1.IH" True s by simp
    then show ?thesis using True by (subst (1 2) pq_heapify_down.simps) simp
  next
    case False
    have "heap_upto (pq_size pq) (pq_nodes pq)"
      unfolding heap_upto_def
    proof (intro allI impI)
      fix i assume i: "0 < i \<and> i < pq_size pq"
      show "pq_fScore (pq_nodes pq ((i - 1) div 2)) \<le> pq_fScore (pq_nodes pq i)"
      proof (cases "(i - 1) div 2 = idx")
        case True
        then have "i = 2 * idx + 1 \<or> i = 2 * idx + 2" using child_cases i by blast
        then show ?thesis using sp(5,6) False i True by auto
      next
        case ne: False
        then show ?thesis using "1.prems"(1) i by (auto simp: heap_except_down_def)
      qed
    qed
    then show ?thesis using False "1.prems"(2) by (subst (1 2) pq_heapify_down.simps) auto
  qed
qed

lemma push_except_up:
  assumes "heap_upto (pq_size pq) (pq_nodes pq)"
  shows "heap_except_up (pq_size pq + 1)
           ((pq_nodes pq)(pq_size pq := e)) (pq_size pq)"
  unfolding heap_except_up_def
proof (intro conjI allI impI)
  fix i assume i: "0 < i \<and> i < pq_size pq + 1 \<and> i \<noteq> pq_size pq"
  then have "i < pq_size pq" "(i - 1) div 2 < pq_size pq" by arith+
  then show "pq_fScore (((pq_nodes pq)(pq_size pq := e)) ((i - 1) div 2))
      \<le> pq_fScore (((pq_nodes pq)(pq_size pq := e)) i)"
    using assms i by (simp add: heap_upto_def)
next
  fix c assume "0 < pq_size pq \<and> c < pq_size pq + 1 \<and> 0 < c \<and> (c - 1) div 2 = pq_size pq"
  then have False by arith
  then show "pq_fScore (((pq_nodes pq)(pq_size pq := e)) ((pq_size pq - 1) div 2))
      \<le> pq_fScore (((pq_nodes pq)(pq_size pq := e)) c)" ..
qed

lemma pq_push_heap:
  assumes "heap_inv pq" and "f \<noteq> NaN"
  shows "heap_inv (snd (pq_push pq n f))"
proof (cases "pq_size pq \<ge> pq_capacity pq")
  case True
  then show ?thesis using assms by (simp add: pq_push_def)
next
  case False
  let ?pq1 = "pq\<lparr>pq_nodes := (pq_nodes pq)(pq_size pq := \<lparr>pq_nodeId = n, pq_fScore = f\<rparr>)\<rparr>"
  have "heap_except_up (pq_size pq + 1) (pq_nodes ?pq1) (pq_size pq)"
    using push_except_up [of pq] assms(1) by (simp add: heap_inv_def)
  moreover have "keys_ok (pq_size pq + 1) (pq_nodes ?pq1)"
    using assms by (auto simp: heap_inv_def keys_ok_def)
  ultimately have "heap_upto (pq_size pq + 1) (pq_nodes (pq_heapify_up ?pq1 (pq_size pq)))
      \<and> keys_ok (pq_size pq + 1) (pq_nodes (pq_heapify_up ?pq1 (pq_size pq)))"
    by (intro heapify_up_heap) simp_all
  then show ?thesis using False
    by (simp add: pq_push_def Let_def heap_inv_def heapify_up_fields)
qed

lemma pq_pop_heap:
  assumes "heap_inv pq" and "pq_pop pq = Some (n, f, pq')"
  shows "heap_inv pq'"
proof (cases "pq_size pq - 1 > 0")
  case False
  then show ?thesis using assms
    by (auto simp: pq_pop_def Let_def heap_inv_def heap_upto_def keys_ok_def split: if_splits)
next
  case True
  let ?m = "pq_size pq - 1"
  let ?pq1 = "pq\<lparr>pq_size := ?m, pq_nodes := (pq_nodes pq)(0 := pq_nodes pq ?m)\<rparr>"
  have "heap_except_down (pq_size ?pq1) (pq_nodes ?pq1) 0"
    using assms(1) True
    by (auto simp: heap_except_down_def heap_inv_def heap_upto_def)
  moreover have "keys_ok (pq_size ?pq1) (pq_nodes ?pq1)"
    using assms(1) True by (auto simp: heap_inv_def keys_ok_def)
  ultimately have "heap_upto (pq_size ?pq1) (pq_nodes (pq_heapify_down ?pq1 0))
      \<and> keys_ok (pq_size ?pq1) (pq_nodes (pq_heapify_down ?pq1 0))"
    using True by (intro heapify_down_heap) simp_all
  moreover have "pq' = pq_heapify_down ?pq1 0"
    using assms(2) True by (auto simp: pq_pop_def Let_def split: if_splits)
  ultimately show ?thesis by (simp add: heap_inv_def heapify_down_fields)
qed

lemma decrease_key_heap:
  assumes "heap_inv pq" and "i < pq_size pq" and "newF < pq_fScore (pq_nodes pq i)"
  shows "heap_inv (pq_heapify_up
           (pq\<lparr>pq_nodes := (pq_nodes pq)(i := (pq_nodes pq i)\<lparr>pq_fScore := newF\<rparr>)\<rparr>) i)"
proof -
  let ?pq1 = "pq\<lparr>pq_nodes := (pq_nodes pq)(i := (pq_nodes pq i)\<lparr>pq_fScore := newF\<rparr>)\<rparr>"
  have h: "\<And>k. 0 < k \<Longrightarrow> k < pq_size pq \<Longrightarrow>
      pq_fScore (pq_nodes pq ((k - 1) div 2)) \<le> pq_fScore (pq_nodes pq k)"
    using assms(1) by (simp add: heap_inv_def heap_upto_def)
  have "newF \<noteq> NaN" using assms(3) by auto
  then have keys: "keys_ok (pq_size pq) (pq_nodes ?pq1)"
    using assms(1) by (auto simp: heap_inv_def keys_ok_def)
  have "heap_except_up (pq_size pq) (pq_nodes ?pq1) i"
    unfolding heap_except_up_def
  proof (intro conjI allI impI)
    fix k assume k: "0 < k \<and> k < pq_size pq \<and> k \<noteq> i"
    show "pq_fScore (pq_nodes ?pq1 ((k - 1) div 2)) \<le> pq_fScore (pq_nodes ?pq1 k)"
      using h [of k] k assms(3) by auto
  next
    fix c assume c: "0 < i \<and> c < pq_size pq \<and> 0 < c \<and> (c - 1) div 2 = i"
    then have "c \<noteq> i" "(i - 1) div 2 \<noteq> i" by arith+
    moreover have "pq_fScore (pq_nodes pq ((i - 1) div 2)) \<le> pq_fScore (pq_nodes pq i)"
      using h [of i] c assms(2) by simp
    moreover have "pq_fScore (pq_nodes pq i) \<le> pq_fScore (pq_nodes pq c)"
      using h [of c] c by simp
    ultimately show "pq_fScore (pq_nodes ?pq1 ((i - 1) div 2)) \<le> pq_fScore (pq_nodes ?pq1 c)"
      by simp
  qed
  then have "heap_upto (pq_size pq) (pq_nodes (pq_heapify_up ?pq1 i))
      \<and> keys_ok (pq_size pq) (pq_nodes (pq_heapify_up ?pq1 i))"
    using assms(2) keys by (rule heapify_up_heap)
  then show ?thesis by (simp add: heap_inv_def heapify_up_fields)
qed

lemma decrease_from_heap:
  assumes "heap_inv pq" and "newF \<noteq> NaN"
  shows "heap_inv (decrease_from pq n newF i)"
  using assms
proof (induction pq n newF i rule: decrease_from.induct)
  case (1 pq n newF i)
  show ?case
    using "1.IH" "1.prems" decrease_key_heap [of pq i newF] pq_push_heap [of pq newF n]
    by (subst decrease_from.simps) (auto simp: flt_iff)
qed

lemma pq_apply_heap:
  assumes "heap_inv pq" and "score_is_number op"
  shows "heap_inv (pq_apply pq op)"
proof (cases op)
  case (Push n f)
  then show ?thesis using assms by (simp add: pq_push_heap)
next
  case Pop
  then show ?thesis using assms pq_pop_heap [of pq]
    by (auto split: option.splits)
next
  case (Decrease n f)
  then show ?thesis using assms by (simp add: pq_decrease_priority_def decrease_from_heap)
qed

lemma pq_run_heap:
  assumes "heap_inv pq" and "list_all score_is_number ops"
  shows "heap_inv (pq_run pq ops)"
  using assms by (induction ops arbitrary: pq) (simp_all add: pq_apply_heap)

text \<open>
  Claim C9, as amended. Take any sequence of \<open>pq_push\<close>, \<open>pq_pop\<close> and
  \<open>pq_decrease_priority\<close> operations whose scores are numbers (finite or infinite, not
  NaN), starting from an empty queue (no slot in use; any storage content, any
  capacity). After each operation of the sequence, that is after its first \<open>k\<close>
  operations for every \<open>k\<close>, the slots in use satisfy the min-heap order:
  \<open>fScore[parent] <= fScore[child]\<close> holds, as C tests it, of every slot in use and its
  parent.
\<close>

theorem heap_property_invariant:
  assumes "pq_size pq = 0" and "list_all score_is_number ops"
  shows "heap_ok (pq_run pq (take k ops))"
proof -
  have "heap_inv pq" using assms(1) by (simp add: heap_inv_def heap_upto_def keys_ok_def)
  moreover have "list_all score_is_number (take k ops)"
    using assms(2) by (auto simp: list_all_iff dest: in_set_takeD)
  ultimately have "heap_inv (pq_run pq (take k ops))" by (rule pq_run_heap)
  then show ?thesis by (rule heap_inv_ok)
qed

lemmas pq_eval = pq_example_def pq_example_ops_def pq_push_def pq_pop_def
  pq_decrease_priority_def decrease_from.simps pq_heapify_up.simps pq_heapify_down.simps
  smallest_of_def pq_swap_def Let_def

text \<open>
  After the six operations of the example three slots are in use, and the entry of
  slot 2 is not below that of its parent, slot 0.
\<close>

theorem heap_property_invariant_witness:
  "pq_size pq_example = 0
   \<and> list_all score_is_number pq_example_ops
   \<and> pq_size (pq_run pq_example pq_example_ops) = 3
   \<and> fle (pq_fScore (pq_nodes (pq_run pq_example pq_example_ops) ((2 - 1) div 2)))
         (pq_fScore (pq_nodes (pq_run pq_example pq_example_ops) 2))"
proof -
  have h: "pq_size pq_example = 0" by (simp add: pq_example_def)
  have n: "list_all score_is_number pq_example_ops" by (simp add: pq_example_ops_def)
  have sz: "pq_size (pq_run pq_example pq_example_ops) = 3"
    by (simp add: pq_eval)
  have t: "take 6 pq_example_ops = pq_example_ops" by (simp add: pq_example_ops_def)
  have "heap_ok (pq_run pq_example pq_example_ops)"
    using heap_property_invariant [OF h n, of 6] unfolding t .
  then have "(0::nat) < 2 \<and> 2 < pq_size (pq_run pq_example pq_example_ops)
    \<longrightarrow> fle (pq_fScore (pq_nodes (pq_run pq_example pq_example_ops) ((2 - 1) div 2)))
            (pq_fScore (pq_nodes (pq_run pq_example pq_example_ops) 2))"
    unfolding heap_ok_def by blast
  with h n sz show ?thesis by simp
qed

text \<open>
  The claim as stated fails: after \<open>pq_push(1, NaN)\<close> and \<open>pq_push(2, 1.0f)\<close> on the
  empty queue the comparison of \<open>pq_heapify_up\<close> is false, nothing is swapped, and
  \<open>fScore[0] <= fScore[1]\<close> is false of the two slots in use.
\<close>

theorem heap_property_nan_counterexample:
  "pq_size pq_example = 0
   \<and> pq_size (pq_run pq_example nan_ops) = 2
   \<and> pq_fScore (pq_nodes (pq_run pq_example nan_ops) 0) = NaN
   \<and> pq_fScore (pq_nodes (pq_run pq_example nan_ops) 1) = Fin 1
   \<and> \<not> fle (pq_fScore (pq_nodes (pq_run pq_example nan_ops) 0))
           (pq_fScore (pq_nodes (pq_run pq_example nan_ops) 1))
   \<and> \<not> heap_ok (pq_run pq_example nan_ops)"
proof -
  let ?q = "pq_run pq_example nan_ops"
  have 1: "pq_size pq_example = 0" by (simp add: pq_example_def)
  have 2: "pq_size ?q = 2" by (simp add: nan_ops_def pq_eval)
  have 3: "pq_fScore (pq_nodes ?q 0) = NaN" by (simp add: nan_ops_def pq_eval)
  have 4: "pq_fScore (pq_nodes ?q 1) = Fin 1" by (simp add: nan_ops_def pq_eval)
  have 5: "\<not> fle (pq_fScore (pq_nodes ?q 0)) (pq_fScore (pq_nodes ?q 1))"
    unfolding 3 4 by simp
  have "\<not> heap_ok ?q"
  proof
    assume "heap_ok ?q"
    then have "0 < (1::nat) \<and> 1 < pq_size ?q
        \<longrightarrow> fle (pq_fScore (pq_nodes ?q ((1 - 1) div 2))) (pq_fScore (pq_nodes ?q 1))"
      unfolding heap_ok_def by blast
    then show False using 2 5 by simp
  qed
  with 1 2 3 4 5 show ?thesis by blast
qed

section \<open>The search: initial state and the trivial cases\<close>

lemma heapify_up_zero: "pq_heapify_up pq 0 = pq"
  by (subst pq_heapify_up.simps) simp

lemma init_loop_fields:
  fixes st :: astar_state
  shows "openSet (for_loop i n init_scores st) = openSet st
   \<and> inClosedSet (for_loop i n init_scores st) = inClosedSet st
   \<and> inOpenSet (for_loop i n init_scores st) = inOpenSet st
   \<and> localStats (for_loop i n init_scores st) = localStats st
   \<and> pq_calls (for_loop i n init_scores st) = pq_calls st"
proof (induction i n init_scores st rule: for_loop.induct)
  case (1 i n st)
  show ?case
  proof (cases "i < n")
    case True
    then show ?thesis using 1 by (simp add: for_loop_step init_scores_def)
  next
    case False
    then show ?thesis by (simp add: for_loop_skip)
  qed
qed

lemma init_loop_arrays:
  fixes st :: astar_state
  assumes "i \<le> n"
  shows "gScore (for_loop i n init_scores st) k
           = (if i \<le> k \<and> k < n then Fin FLT_MAX else gScore st k)
     \<and> cameFrom (for_loop i n init_scores st) k
           = (if i \<le> k \<and> k < n then - 1 else cameFrom st k)"
  using assms
proof (induction i n init_scores st rule: for_loop.induct)
  case (1 i n st)
  show ?case
  proof (cases "i < n")
    case True
    then show ?thesis using 1 by (auto simp: for_loop_step init_scores_def)
  next
    case False
    then show ?thesis using 1 by (auto simp: for_loop_skip)
  qed
qed

lemma pq_push_empty:
  assumes "0 < cap"
  shows "pq_push (pq_create cap) v f =
           (True, \<lparr>pq_nodes = (\<lambda>_. \<lparr>pq_nodeId = 0, pq_fScore = Fin 0\<rparr>)(0 := \<lparr>pq_nodeId = v, pq_fScore = f\<rparr>),
                   pq_size = 1, pq_capacity = cap\<rparr>)"
  using assms by (simp add: pq_push_def pq_create_def Let_def heapify_up_zero)

text \<open>The fields of the state the main loop starts from.\<close>

lemma astar_init_fields:
  assumes "0 \<le> s" and "s < nodeCount g"
  shows "openSet (astar_init g cfg s t) =
           \<lparr>pq_nodes = (\<lambda>_. \<lparr>pq_nodeId = 0, pq_fScore = Fin 0\<rparr>)
              (0 := \<lparr>pq_nodeId = s, pq_fScore = fmul (astar_heuristic (Some (nodes g s))
                      (Some (nodes g t)) (heuristic cfg)) (heuristicWeight cfg)\<rparr>),
             pq_size = 1, pq_capacity = nat (nodeCount g)\<rparr>"
    and "gScore (astar_init g cfg s t) =
           (\<lambda>k. if k = s then Fin 0 else if 0 \<le> k \<and> k < nodeCount g then Fin FLT_MAX else Fin 0)"
    and "cameFrom (astar_init g cfg s t) =
           (\<lambda>k. if 0 \<le> k \<and> k < nodeCount g then - 1 else 0)"
    and "inClosedSet (astar_init g cfg s t) = (\<lambda>_. False)"
    and "inOpenSet (astar_init g cfg s t) = (\<lambda>k. k = s)"
    and "localStats (astar_init g cfg s t) =
           \<lparr>nodesExplored = 0, nodesInOpenSet = 0, maxOpenSetSize = 1\<rparr>"
    and "pq_calls (astar_init g cfg s t) = [Pushed s True]"
proof -
  have n: "0 \<le> nodeCount g" "0 < nat (nodeCount g)" using assms by simp_all
  note ar = init_loop_arrays [OF n(1)]
  show "openSet (astar_init g cfg s t) =
           \<lparr>pq_nodes = (\<lambda>_. \<lparr>pq_nodeId = 0, pq_fScore = Fin 0\<rparr>)
              (0 := \<lparr>pq_nodeId = s, pq_fScore = fmul (astar_heuristic (Some (nodes g s))
                      (Some (nodes g t)) (heuristic cfg)) (heuristicWeight cfg)\<rparr>),
             pq_size = 1, pq_capacity = nat (nodeCount g)\<rparr>"
    by (simp add: astar_init_def Let_def init_loop_fields pq_push_empty [OF n(2)])
  show "gScore (astar_init g cfg s t) =
           (\<lambda>k. if k = s then Fin 0 else if 0 \<le> k \<and> k < nodeCount g then Fin FLT_MAX else Fin 0)"
    by (rule ext) (simp add: astar_init_def Let_def ar)
  show "cameFrom (astar_init g cfg s t) =
           (\<lambda>k. if 0 \<le> k \<and> k < nodeCount g then - 1 else 0)"
    by (rule ext) (simp add: astar_init_def Let_def ar)
  show "inClosedSet (astar_init g cfg s t) = (\<lambda>_. False)"
    by (simp add: astar_init_def Let_def init_loop_fields)
  show "inOpenSet (astar_init g cfg s t) = (\<lambda>k. k = s)"
    by (rule ext) (simp add: astar_init_def Let_def init_loop_fields)
  show "localStats (astar_init g cfg s t) =
           \<lparr>nodesExplored = 0, nodesInOpenSet = 0, maxOpenSetSize = 1\<rparr>"
    by (simp add: astar_init_def Let_def init_loop_fields)
  show "pq_calls (astar_init g cfg s t) = [Pushed s True]"
    by (simp add: astar_init_def Let_def init_loop_fields pq_push_empty [OF n(2)])
qed

lemma reconstruct_path_same:
  "reconstruct_path came gs s s n =
     \<lparr>path_nodes = [s], path_length = 1, totalCost = gs s, found = True\<rparr>"
  by (simp add: reconstruct_path_def count_path.simps [of came s n s] Let_def)

lemma astar_loop_start_is_goal:
  assumes "0 \<le> s" and "s < nodeCount g"
  shows "\<exists>st. astar_loop g cfg s s (astar_init g cfg s s) =
           Some (\<lparr>path_nodes = [s], path_length = 1, totalCost = Fin 0, found = True\<rparr>, st)"
proof -
  let ?st = "astar_init g cfg s s"
  note f = astar_init_fields [OF assms, of cfg s]
  have pop: "\<exists>h pq'. pq_pop (openSet ?st) = Some (s, h, pq')"
    by (simp add: f(1) pq_pop_def Let_def)
  then obtain h pq' where p: "pq_pop (openSet ?st) = Some (s, h, pq')" by blast
  have ne: "\<not> pq_empty (openSet ?st)" by (simp add: f(1) pq_empty_def)
  have "\<exists>st'. astar_iter g cfg s s ?st =
      Inl (\<lparr>path_nodes = [s], path_length = 1, totalCost = Fin 0, found = True\<rparr>, st')"
    by (simp add: astar_iter_def p Let_def reconstruct_path_same f(2))
  then show ?thesis
    using ne by (subst astar_loop.simps) auto
qed

text \<open>
  Claim C7. For an in-range id \<open>s\<close>, \<open>astar_find_path\<close> from \<open>s\<close> to \<open>s\<close> returns a found
  path that consists of \<open>s\<close> alone, with cost 0, for every graph content and every
  configuration (the node's own active flag is not consulted either).
\<close>
theorem start_equals_goal:
  assumes "0 \<le> s" and "s < nodeCount g"
  shows "\<exists>stats calls. astar_find_path g s s config =
           Some (\<lparr>path_nodes = [s], path_length = 1, totalCost = Fin 0, found = True\<rparr>,
                 Some stats, calls)"
proof -
  obtain st where "astar_loop g (case config of Some c \<Rightarrow> c | None \<Rightarrow> astar_default_config) s s
      (astar_init g (case config of Some c \<Rightarrow> c | None \<Rightarrow> astar_default_config) s s) =
      Some (\<lparr>path_nodes = [s], path_length = 1, totalCost = Fin 0, found = True\<rparr>, st)"
    using astar_loop_start_is_goal [OF assms] by blast
  then show ?thesis using assms by (simp add: astar_find_path_def Let_def)
qed

text \<open>
  Claim C2, as amended. When the start id or the goal id is out of range,
  \<open>astar_find_path\<close> returns at once the empty result (not found, length 0, cost 0),
  writes no statistics and touches no queue. The guard tests ranges only.
\<close>
theorem out_of_range_search:
  assumes "s < 0 \<or> nodeCount g \<le> s \<or> t < 0 \<or> nodeCount g \<le> t"
  shows "astar_find_path g s t config =
           Some (\<lparr>path_nodes = [], path_length = 0, totalCost = Fin 0, found = False\<rparr>, None, [])"
  using assms by (auto simp: astar_find_path_def path_result_create_def)

lemmas astar_eval = astar_find_path_def astar_init_def init_scores_def astar_loop.simps
  astar_iter_def relax_edge_def reconstruct_path_def count_path.simps path_result_create_def
  pq_create_def pq_empty_def pq_has_def astar_heuristic_def astar_default_config_def
  zero_config_def FLT_MAX_def fsub_def fmaxf_def round_f32_int
  round_f32_FLT_MAX [unfolded FLT_MAX_def]

theorem start_equals_goal_witness:
  "(0::int) \<le> 1 \<and> 1 < nodeCount abc_graph
   \<and> map_option fst (astar_find_path abc_graph 1 1 None) =
        Some \<lparr>path_nodes = [1], path_length = 1, totalCost = Fin 0, found = True\<rparr>"
proof -
  have h: "(0::int) \<le> 1" "1 < nodeCount abc_graph" by (simp_all add: graph_eval)
  from start_equals_goal [OF h, of None] h show ?thesis by auto
qed

theorem out_of_range_search_witness:
  "nodeCount abc_graph \<le> 3
   \<and> astar_find_path abc_graph 0 3 None =
        Some (\<lparr>path_nodes = [], path_length = 0, totalCost = Fin 0, found = False\<rparr>, None, [])"
proof -
  have h: "nodeCount abc_graph \<le> 3" by (simp add: graph_eval)
  from out_of_range_search [of 0 abc_graph 3 None] h show ?thesis by simp
qed

text \<open>
  Node A of the example was removed; a search from A to A still returns a found path.
\<close>

theorem inactive_start_counterexample:
  "(0::int) \<le> 0 \<and> 0 < nodeCount abc_removed \<and> \<not> active (nodes abc_removed 0)
   \<and> astar_find_path abc_removed 0 0 None =
        Some (\<lparr>path_nodes = [0], path_length = 1, totalCost = Fin 0, found = True\<rparr>,
              Some \<lparr>nodesExplored = 1, nodesInOpenSet = 0, maxOpenSetSize = 1\<rparr>,
              [Pushed 0 True])"
  by (simp add: astar_eval pq_eval graph_eval)

section \<open>Persistence: encodings\<close>

lemma length_enc_u32 [simp]: "length (enc_u32 u) = 4"
  by (simp add: enc_u32_def)

lemma unat_byte_of_nat: "unat (of_nat (k mod 256) :: byte) = k mod 256"
  by (simp add: unat_of_nat)

lemma dec_enc_u32:
  assumes "u < 4294967296"
  shows "dec_u32 (enc_u32 u) = u"
proof -
  define b where "b = u div 256"
  define c where "c = b div 256"
  define d where "d = c div 256"
  have b': "u div 65536 = c" and c': "u div 16777216 = d"
    by (simp_all add: b_def c_def d_def div_mult2_eq)
  have "d < 256" using assms unfolding c' [symmetric] by simp
  then have dm: "d mod 256 = d" by simp
  have eu: "u = u mod 256 + 256 * b" by (simp add: b_def)
  have eb: "b = b mod 256 + 256 * c" by (simp add: c_def)
  have ec: "c = c mod 256 + 256 * d" by (simp add: d_def)
  have "dec_u32 (enc_u32 u) = u mod 256 + 256 * (b mod 256)
      + 65536 * (c mod 256) + 16777216 * (d mod 256)"
    by (simp add: dec_u32_def enc_u32_def unat_byte_of_nat b' c' b_def [symmetric])
  also have "\<dots> = u mod 256 + 256 * (b mod 256 + 256 * (c mod 256 + 256 * d))"
    by (simp add: dm)
  also have "\<dots> = u" using eu eb ec by simp
  finally show ?thesis .
qed

lemma dec_enc_int:
  assumes "is_int32 i"
  shows "dec_int (enc_int i) = i"
proof -
  let ?u = "nat (i mod 4294967296)"
  have u: "?u < 4294967296" by simp
  have d: "dec_u32 (enc_int i) = ?u" by (simp add: enc_int_def dec_enc_u32 [OF u])
  show ?thesis
  proof (cases "0 \<le> i")
    case True
    then have "i mod 4294967296 = i" using assms by (simp add: is_int32_def)
    then show ?thesis using True assms by (simp add: dec_int_def d is_int32_def)
  next
    case False
    have "(i + 4294967296) mod 4294967296 = i + 4294967296"
      using False assms by (intro mod_pos_pos_trivial) (auto simp: is_int32_def)
    then have "i mod 4294967296 = i + 4294967296" by simp
    then show ?thesis using False assms by (simp add: dec_int_def d is_int32_def)
  qed
qed

lemma dec_enc_float: "dec_float (enc_float w) = w"
proof -
  have "unat w < 2 ^ 32" using unsigned_less [of w, where ?'a = nat] by simp
  then have "unat w < 4294967296" by simp
  then show ?thesis by (simp add: dec_float_def enc_float_def dec_enc_u32)
qed

lemma dec_enc_bool: "dec_bool (enc_bool b) = b"
  by (simp add: dec_bool_def enc_bool_def)

lemma length_enc [simp]:
  "length (enc_int i) = 4" "length (enc_float w) = 4" "length (enc_bool b) = 1"
  by (simp_all add: enc_int_def enc_float_def enc_bool_def)

lemma read_elem_int:
  "is_int32 i \<Longrightarrow> read_elem 4 enc_int dec_int old (enc_int i @ rest) = (i, rest)"
  by (simp add: read_elem_def dec_enc_int)

lemma read_elem_float:
  "read_elem 4 enc_float dec_float old (enc_float w @ rest) = (w, rest)"
  by (simp add: read_elem_def dec_enc_float)

lemma read_elem_bool:
  "read_elem (Suc 0) enc_bool dec_bool old (enc_bool b @ rest) = (b, rest)"
  by (simp add: read_elem_def dec_enc_bool)

text \<open>At the end of the file a read leaves the destination as it is.\<close>

lemma read_elem_eof:
  "is_int32 i \<Longrightarrow> read_elem 4 enc_int dec_int i [] = (i, [])"
  "read_elem 4 enc_float dec_float w [] = (w, [])"
  "read_elem (Suc 0) enc_bool dec_bool b [] = (b, [])"
  by (simp_all add: read_elem_def dec_enc_int dec_enc_float dec_enc_bool)

lemma read_bytes_exact:
  "length nm = k \<Longrightarrow> read_bytes k old (nm @ rest) = (nm, rest)"
  by (simp add: read_bytes_def)

lemma node_eta:
  "\<lparr>node_id = node_id nd, name = name nd, node_x = node_x nd, node_y = node_y nd,
     active = active nd\<rparr> = (nd :: 'f Node)"
  by (cases nd) simp

lemma edge_eta:
  "\<lparr>from_e = from_e e, to_e = to_e e, weight = weight e, eactive = eactive e\<rparr>
     = (e :: 'f Edge)"
  by (cases e) simp

lemma load_node_saved:
  assumes "is_int32 (node_id nd)" and "length (name nd) = MAX_NAME_LENGTH"
  shows "load_node i (g, save_node nd @ rest) = (g\<lparr>nodes := (nodes g)(i := nd)\<rparr>, rest)"
  using assms
  by (simp add: load_node_def save_node_def Let_def read_elem_int read_elem_float
      read_elem_bool read_bytes_exact node_eta)

lemma load_edge_saved:
  assumes "is_int32 (from_e e)" and "is_int32 (to_e e)"
  shows "load_edge i j (g, save_edge e @ rest) =
           (g\<lparr>edges := (edges g)(i := (edges g i)(j := e))\<rparr>, rest)"
  using assms
  by (simp add: load_edge_def save_edge_def Let_def read_elem_int read_elem_float
      read_elem_bool edge_eta)

section \<open>Persistence: the loops\<close>

lemma for_loop_append:
  "for_loop i n (\<lambda>k f. f @ h k) f = f @ cat_range h i n"
proof (induction "nat (n - i)" arbitrary: i f)
  case 0
  then show ?case by (simp add: cat_range_def for_loop_skip)
next
  case (Suc m)
  then have lt: "i < n" and m: "m = nat (n - (i + 1))" by auto
  have "for_loop i n (\<lambda>k f. f @ h k) f = (f @ h i) @ cat_range h (i + 1) n"
    using Suc.hyps(1) [OF m] lt by (simp add: for_loop_step)
  moreover have "cat_range h i n = h i @ cat_range h (i + 1) n"
    using Suc.hyps(1) [OF m, of "[] @ h i"] lt by (simp add: cat_range_def for_loop_step)
  ultimately show ?case by simp
qed

lemma cat_range_empty: "n \<le> i \<Longrightarrow> cat_range h i n = []"
  by (simp add: cat_range_def for_loop_skip)

lemma cat_range_step: "i < n \<Longrightarrow> cat_range h i n = h i @ cat_range h (i + 1) n"
  using for_loop_append [of "i + 1" n h "[] @ h i"]
  by (simp add: cat_range_def for_loop_step)

lemma length_cat_range:
  assumes "\<And>k. length (h k) = L"
  shows "length (cat_range h i n) = L * nat (n - i)"
proof (induction "nat (n - i)" arbitrary: i)
  case 0
  then show ?case by (simp add: cat_range_empty)
next
  case (Suc m)
  then have lt: "i < n" and m: "m = nat (n - (i + 1))" by auto
  have "nat (n - i) = Suc (nat (n - (i + 1)))" using lt by simp
  then show ?case using Suc.hyps(1) [OF m] lt assms by (simp add: cat_range_step)
qed

lemma drop_cat_range:
  assumes "\<And>k. length (h k) = L" and "lo \<le> i" and "i \<le> n"
  shows "drop (L * nat (i - lo)) (cat_range h lo n @ rest) = cat_range h i n @ rest"
  using assms(2,3)
proof (induction "nat (i - lo)" arbitrary: lo)
  case 0
  then have "lo = i" by simp
  then show ?case by simp
next
  case (Suc m)
  then have lt: "lo < i" and m: "m = nat (i - (lo + 1))" by auto
  have e: "nat (i - lo) = Suc (nat (i - (lo + 1)))" using lt by simp
  have "lo < n" using lt Suc.prems by simp
  then have "cat_range h lo n @ rest = h lo @ (cat_range h (lo + 1) n @ rest)"
    by (simp add: cat_range_step)
  then have "drop (L * nat (i - lo)) (cat_range h lo n @ rest) =
      drop (L * nat (i - (lo + 1))) (cat_range h (lo + 1) n @ rest)"
    using assms(1) [of lo] by (simp add: e)
  then show ?case using Suc.hyps(1) [OF m] lt Suc.prems by simp
qed

lemma take_drop_cat_range:
  assumes "\<And>k. length (h k) = L" and "0 \<le> i" and "i < n"
  shows "take L (drop (L * nat i) (cat_range h 0 n @ rest)) = h i"
proof -
  have "drop (L * nat (i - 0)) (cat_range h 0 n @ rest) = cat_range h i n @ rest"
    using assms by (intro drop_cat_range) auto
  then show ?thesis using assms by (simp add: cat_range_step)
qed

lemma graph_save_layout:
  "graph_save g = magic @ enc_int (nodeCount g)
     @ cat_range (\<lambda>i. save_node (nodes g i)) 0 (nodeCount g)
     @ cat_range (\<lambda>i. enc_int (edgeCounts g i)) 0 MAX_NODES
     @ cat_range (\<lambda>i. cat_range (\<lambda>j. save_edge (edges g i j)) 0 (edgeCounts g i)) 0
         (nodeCount g)"
proof -
  have inner: "(\<lambda>i f. for_loop 0 (edgeCounts g i) (\<lambda>j f. f @ save_edge (edges g i j)) f)
      = (\<lambda>i f. f @ cat_range (\<lambda>j. save_edge (edges g i j)) 0 (edgeCounts g i))"
    by (intro ext) (simp add: for_loop_append)
  show ?thesis
    by (simp add: graph_save_def Let_def inner for_loop_append)
qed

lemma load_nodes_saved:
  assumes "\<And>k. i \<le> k \<Longrightarrow> k < n \<Longrightarrow>
      is_int32 (node_id (nodes src k)) \<and> length (name (nodes src k)) = MAX_NAME_LENGTH"
  shows "for_loop i n load_node (g, cat_range (\<lambda>k. save_node (nodes src k)) i n @ rest) =
           (g\<lparr>nodes := (\<lambda>k. if i \<le> k \<and> k < n then nodes src k else nodes g k)\<rparr>, rest)"
  using assms
proof (induction "nat (n - i)" arbitrary: i g)
  case 0
  then have "n \<le> i" by simp
  then have "(\<lambda>k. if i \<le> k \<and> k < n then nodes src k else nodes g k) = nodes g"
    by (intro ext) auto
  then show ?case using \<open>n \<le> i\<close> by (simp add: for_loop_skip cat_range_empty)
next
  case (Suc m)
  then have lt: "i < n" and m: "m = nat (n - (i + 1))" by auto
  let ?g1 = "g\<lparr>nodes := (nodes g)(i := nodes src i)\<rparr>"
  have ok: "is_int32 (node_id (nodes src i))" "length (name (nodes src i)) = MAX_NAME_LENGTH"
    using Suc.prems [of i] lt by auto
  have step: "load_node i (g, cat_range (\<lambda>k. save_node (nodes src k)) i n @ rest) =
      (?g1, cat_range (\<lambda>k. save_node (nodes src k)) (i + 1) n @ rest)"
    using load_node_saved [OF ok] lt by (simp add: cat_range_step)
  have "for_loop (i + 1) n load_node
      (?g1, cat_range (\<lambda>k. save_node (nodes src k)) (i + 1) n @ rest) =
      (?g1\<lparr>nodes := (\<lambda>k. if i + 1 \<le> k \<and> k < n then nodes src k else nodes ?g1 k)\<rparr>, rest)"
    using Suc.prems by (intro Suc.hyps(1) [OF m]) auto
  moreover have "(\<lambda>k. if i + 1 \<le> k \<and> k < n then nodes src k else nodes ?g1 k) =
      (\<lambda>k. if i \<le> k \<and> k < n then nodes src k else nodes g k)"
    using lt by (intro ext) auto
  ultimately show ?case using lt step by (simp add: for_loop_step)
qed

lemma load_edges_row_saved:
  assumes "\<And>k. j \<le> k \<Longrightarrow> k < m \<Longrightarrow>
      is_int32 (from_e (edges src i k)) \<and> is_int32 (to_e (edges src i k))"
  shows "for_loop j m (load_edge i) (g, cat_range (\<lambda>k. save_edge (edges src i k)) j m @ rest) =
           (g\<lparr>edges := (edges g)(i := (\<lambda>k. if j \<le> k \<and> k < m then edges src i k
                                             else edges g i k))\<rparr>, rest)"
  using assms
proof (induction "nat (m - j)" arbitrary: j g)
  case 0
  then have "m \<le> j" by simp
  then have "(\<lambda>k. if j \<le> k \<and> k < m then edges src i k else edges g i k) = edges g i"
    by (intro ext) auto
  then show ?case using \<open>m \<le> j\<close> by (simp add: for_loop_skip cat_range_empty)
next
  case (Suc d)
  then have lt: "j < m" and d: "d = nat (m - (j + 1))" by auto
  let ?g1 = "g\<lparr>edges := (edges g)(i := (edges g i)(j := edges src i j))\<rparr>"
  have ok: "is_int32 (from_e (edges src i j))" "is_int32 (to_e (edges src i j))"
    using Suc.prems [of j] lt by auto
  have step: "load_edge i j (g, cat_range (\<lambda>k. save_edge (edges src i k)) j m @ rest) =
      (?g1, cat_range (\<lambda>k. save_edge (edges src i k)) (j + 1) m @ rest)"
    using load_edge_saved [OF ok] lt by (simp add: cat_range_step)
  have "for_loop (j + 1) m (load_edge i)
      (?g1, cat_range (\<lambda>k. save_edge (edges src i k)) (j + 1) m @ rest) =
      (?g1\<lparr>edges := (edges ?g1)(i := (\<lambda>k. if j + 1 \<le> k \<and> k < m then edges src i k
                                             else edges ?g1 i k))\<rparr>, rest)"
    using Suc.prems by (intro Suc.hyps(1) [OF d]) auto
  moreover have "(\<lambda>k. if j + 1 \<le> k \<and> k < m then edges src i k else edges ?g1 i k) =
      (\<lambda>k. if j \<le> k \<and> k < m then edges src i k else edges g i k)"
    using lt by (intro ext) auto
  ultimately show ?case using lt step by (simp add: for_loop_step)
qed

lemma load_edges_saved:
  assumes "\<And>k. i \<le> k \<Longrightarrow> k < n \<Longrightarrow> edgeCounts g k = edgeCounts src k"
    and "\<And>k l. i \<le> k \<Longrightarrow> k < n \<Longrightarrow> 0 \<le> l \<Longrightarrow> l < edgeCounts src k \<Longrightarrow>
      is_int32 (from_e (edges src k l)) \<and> is_int32 (to_e (edges src k l))"
  shows "for_loop i n (\<lambda>k gf. for_loop 0 (edgeCounts (fst gf) k) (load_edge k) gf)
           (g, cat_range (\<lambda>k. cat_range (\<lambda>l. save_edge (edges src k l)) 0 (edgeCounts src k)) i n
               @ rest) =
         (g\<lparr>edges := (\<lambda>k l. if i \<le> k \<and> k < n \<and> 0 \<le> l \<and> l < edgeCounts src k
                              then edges src k l else edges g k l)\<rparr>, rest)"
  using assms
proof (induction "nat (n - i)" arbitrary: i g)
  case 0
  then have "n \<le> i" by simp
  then have "(\<lambda>k l. if i \<le> k \<and> k < n \<and> 0 \<le> l \<and> l < edgeCounts src k
                              then edges src k l else edges g k l) = edges g"
    by (intro ext) auto
  then show ?case using \<open>n \<le> i\<close> by (simp add: for_loop_skip cat_range_empty)
next
  case (Suc d)
  then have lt: "i < n" and d: "d = nat (n - (i + 1))" by auto
  let ?row = "\<lambda>l. if 0 \<le> l \<and> l < edgeCounts src i then edges src i l else edges g i l"
  let ?g1 = "g\<lparr>edges := (edges g)(i := ?row)\<rparr>"
  let ?tail = "cat_range (\<lambda>k. cat_range (\<lambda>l. save_edge (edges src k l)) 0 (edgeCounts src k))
                 (i + 1) n @ rest"
  have cnt: "edgeCounts g i = edgeCounts src i" using Suc.prems(1) [of i] lt by simp
  have row: "for_loop 0 (edgeCounts src i) (load_edge i)
      (g, cat_range (\<lambda>l. save_edge (edges src i l)) 0 (edgeCounts src i) @ ?tail) = (?g1, ?tail)"
    using Suc.prems(2) [of i] lt by (intro load_edges_row_saved) auto
  have rest: "for_loop (i + 1) n (\<lambda>k gf. for_loop 0 (edgeCounts (fst gf) k) (load_edge k) gf)
      (?g1, ?tail) =
      (?g1\<lparr>edges := (\<lambda>k l. if i + 1 \<le> k \<and> k < n \<and> 0 \<le> l \<and> l < edgeCounts src k
                              then edges src k l else edges ?g1 k l)\<rparr>, rest)"
    using Suc.prems by (intro Suc.hyps(1) [OF d]) auto
  have "(\<lambda>k l. if i + 1 \<le> k \<and> k < n \<and> 0 \<le> l \<and> l < edgeCounts src k
                              then edges src k l else edges ?g1 k l) =
      (\<lambda>k l. if i \<le> k \<and> k < n \<and> 0 \<le> l \<and> l < edgeCounts src k
                              then edges src k l else edges g k l)"
    using lt by (intro ext) auto
  then show ?case using lt row rest cnt by (simp add: for_loop_step cat_range_step)
qed

lemma read_counts_saved:
  assumes "\<And>i. 0 \<le> i \<Longrightarrow> i < MAX_NODES \<Longrightarrow> is_int32 (c i)"
  shows "read_counts old (cat_range (\<lambda>i. enc_int (c i)) 0 MAX_NODES @ rest) =
           ((\<lambda>i. if 0 \<le> i \<and> i < MAX_NODES then c i else old i), rest)"
proof -
  let ?f = "cat_range (\<lambda>i. enc_int (c i)) 0 MAX_NODES @ rest"
  have len: "length (cat_range (\<lambda>i. enc_int (c i)) 0 MAX_NODES) = 4 * nat MAX_NODES"
    using length_cat_range [of "\<lambda>i. enc_int (c i)" 4 0 MAX_NODES] by simp
  have el: "take 4 (drop (4 * nat i) ?f) = enc_int (c i)" if "0 \<le> i" "i < MAX_NODES" for i
    using take_drop_cat_range [of "\<lambda>i. enc_int (c i)" 4 i MAX_NODES rest] that by simp
  have fits: "4 * nat i + 4 \<le> length ?f" if "0 \<le> i" "i < MAX_NODES" for i
    using that len by (simp add: MAX_NODES_def)
  have old: "length (table_bytes old) = 4 * nat MAX_NODES"
    unfolding table_bytes_def
    using length_cat_range [of "\<lambda>i. enc_int (old i)" 4 0 MAX_NODES] by simp
  have got: "take (4 * nat MAX_NODES) ?f @ drop (length (take (4 * nat MAX_NODES) ?f))
      (table_bytes old) = cat_range (\<lambda>i. enc_int (c i)) 0 MAX_NODES"
    using len old by simp
  have el': "take 4 (drop (4 * nat i) (cat_range (\<lambda>i. enc_int (c i)) 0 MAX_NODES))
      = enc_int (c i)" if "0 \<le> i" "i < MAX_NODES" for i
    using take_drop_cat_range [of "\<lambda>i. enc_int (c i)" 4 i MAX_NODES "[]"] that by simp
  have "fst (read_counts old ?f) = (\<lambda>i. if 0 \<le> i \<and> i < MAX_NODES then c i else old i)"
    using el' assms unfolding read_counts_def Let_def got
    by (intro ext) (auto simp: dec_enc_int)
  moreover have "snd (read_counts old ?f) = rest"
    using len by (simp add: read_counts_def Let_def)
  ultimately show ?thesis by (simp add: prod_eq_iff)
qed

lemma read_counts_eof:
  assumes "\<And>i. 0 \<le> i \<Longrightarrow> i < MAX_NODES \<Longrightarrow> is_int32 (old i)"
  shows "read_counts old [] = (old, [])"
proof -
  have el: "take 4 (drop (4 * nat i) (table_bytes old)) = enc_int (old i)"
    if "0 \<le> i" "i < MAX_NODES" for i
    unfolding table_bytes_def
    using take_drop_cat_range [of "\<lambda>i. enc_int (old i)" 4 i MAX_NODES "[]"] that by simp
  have "fst (read_counts old []) = old"
    using el assms by (intro ext) (auto simp: read_counts_def Let_def dec_enc_int)
  then show ?thesis by (simp add: prod_eq_iff read_counts_def Let_def)
qed

lemma graph_load_saved:
  assumes "graph_rep g"
  shows "graph_load g0 (Some (graph_save g)) =
     (True, \<lparr>nodes = (\<lambda>k. if 0 \<le> k \<and> k < nodeCount g then nodes g k else zero_node),
             nodeCount = nodeCount g,
             edges = (\<lambda>k l. if 0 \<le> k \<and> k < nodeCount g \<and> 0 \<le> l \<and> l < edgeCounts g k
                            then edges g k l else zero_edge),
             edgeCounts = (\<lambda>i. if 0 \<le> i \<and> i < MAX_NODES then edgeCounts g i else 0)\<rparr>)"
proof -
  let ?n = "nodeCount g"
  let ?E = "cat_range (\<lambda>i. cat_range (\<lambda>j. save_edge (edges g i j)) 0 (edgeCounts g i)) 0 ?n"
  let ?C = "cat_range (\<lambda>i. enc_int (edgeCounts g i)) 0 MAX_NODES"
  let ?N = "cat_range (\<lambda>i. save_node (nodes g i)) 0 ?n"
  let ?g1 = "(graph_init :: 32 word Graph)\<lparr>nodeCount := ?n\<rparr>"
  let ?g2 = "?g1\<lparr>nodes := (\<lambda>k. if 0 \<le> k \<and> k < ?n then nodes g k else nodes ?g1 k)\<rparr>"
  let ?cnt = "\<lambda>i. if 0 \<le> i \<and> i < MAX_NODES then edgeCounts g i else edgeCounts ?g2 i"
  let ?g3 = "?g2\<lparr>edgeCounts := ?cnt\<rparr>"
  from assms have n: "0 \<le> ?n" "?n \<le> MAX_NODES"
    and cnt: "\<And>i. 0 \<le> i \<Longrightarrow> i < MAX_NODES \<Longrightarrow> is_int32 (edgeCounts g i)"
    and nd: "\<And>i. 0 \<le> i \<Longrightarrow> i < ?n \<Longrightarrow>
          is_int32 (node_id (nodes g i)) \<and> length (name (nodes g i)) = MAX_NAME_LENGTH"
    and ed: "\<And>i j. 0 \<le> i \<Longrightarrow> i < ?n \<Longrightarrow> 0 \<le> j \<Longrightarrow> j < edgeCounts g i \<Longrightarrow>
          is_int32 (from_e (edges g i j)) \<and> is_int32 (to_e (edges g i j))"
    by (auto simp: graph_rep_def)
  have n32: "is_int32 ?n" using n by (simp add: is_int32_def MAX_NODES_def)
  have layout: "graph_save g = magic @ (enc_int ?n @ (?N @ (?C @ (?E @ []))))"
    by (simp add: graph_save_layout)
  have nodes: "for_loop 0 ?n load_node (?g1, ?N @ (?C @ (?E @ []))) = (?g2, ?C @ (?E @ []))"
    using nd by (intro load_nodes_saved) auto
  have counts: "read_counts (edgeCounts ?g2) (?C @ (?E @ [])) = (?cnt, ?E @ [])"
    using cnt by (intro read_counts_saved) auto
  have edges: "for_loop 0 ?n (\<lambda>k gf. for_loop 0 (edgeCounts (fst gf) k) (load_edge k) gf)
      (?g3, ?E @ []) =
      (?g3\<lparr>edges := (\<lambda>k l. if 0 \<le> k \<and> k < ?n \<and> 0 \<le> l \<and> l < edgeCounts g k
                           then edges g k l else edges ?g3 k l)\<rparr>, [])"
    using ed n by (intro load_edges_saved) auto
  have "graph_load g0 (Some (graph_save g)) =
      (True, ?g3\<lparr>edges := (\<lambda>k l. if 0 \<le> k \<and> k < ?n \<and> 0 \<le> l \<and> l < edgeCounts g k
                           then edges g k l else edges ?g3 k l)\<rparr>)"
    unfolding graph_load_def layout
    using nodes counts edges
    by (simp add: Let_def magic_def read_elem_int [OF n32])
  then show ?thesis by (simp add: graph_init_def cong del: if_weak_cong)
qed

text \<open>
  Claim C6. For a graph as the store holds it, loading the bytes \<open>graph_save\<close> wrote
  succeeds and gives the same node count, the same node in every slot below the node
  count (id, name, coordinates, active flag), the same edge count in every slot of the
  table, and the same edge (from, to, weight, active flag) in every counted edge slot.
\<close>
theorem save_load_roundtrip:
  assumes "graph_rep g"
  shows "fst (graph_load g0 (Some (graph_save g)))
    \<and> nodeCount (snd (graph_load g0 (Some (graph_save g)))) = nodeCount g
    \<and> (\<forall>i. 0 \<le> i \<and> i < nodeCount g \<longrightarrow>
          nodes (snd (graph_load g0 (Some (graph_save g)))) i = nodes g i)
    \<and> (\<forall>i. 0 \<le> i \<and> i < MAX_NODES \<longrightarrow>
          edgeCounts (snd (graph_load g0 (Some (graph_save g)))) i = edgeCounts g i)
    \<and> (\<forall>i j. 0 \<le> i \<and> i < nodeCount g \<and> 0 \<le> j \<and> j < edgeCounts g i \<longrightarrow>
          edges (snd (graph_load g0 (Some (graph_save g)))) i j = edges g i j)"
  by (simp add: graph_load_saved [OF assms])

lemmas bits_eval = abc_bits_def abc_bits_edges_def abc_bits_nodes_def graph_eval

lemma abc_bits_rep: "graph_rep abc_bits"
  unfolding graph_rep_def
proof (intro conjI allI impI)
  show "0 \<le> nodeCount abc_bits" "nodeCount abc_bits \<le> MAX_NODES"
    by (simp_all add: bits_eval)
next
  fix i assume "0 \<le> i \<and> i < MAX_NODES"
  show "is_int32 (edgeCounts abc_bits i)"
    by (simp add: bits_eval is_int32_def)
next
  fix i assume i: "0 \<le> i \<and> i < nodeCount abc_bits"
  have "nodeCount abc_bits = 3" by (simp add: bits_eval)
  then have "i = 0 \<or> i = 1 \<or> i = 2" using i by auto
  then show "is_int32 (node_id (nodes abc_bits i))"
    "length (name (nodes abc_bits i)) = MAX_NAME_LENGTH"
    "edgeCounts abc_bits i \<le> MAX_EDGES_PER_NODE"
    by (auto simp: bits_eval is_int32_def copy_name_def MAX_NAME_LENGTH_def)
next
  fix i j assume ij: "0 \<le> i \<and> i < nodeCount abc_bits \<and> 0 \<le> j \<and> j < edgeCounts abc_bits i"
  have "nodeCount abc_bits = 3" by (simp add: bits_eval)
  then have i: "i = 0 \<or> i = 1 \<or> i = 2" using ij by auto
  have c: "edgeCounts abc_bits 0 = 2" "edgeCounts abc_bits 1 = 1" "edgeCounts abc_bits 2 = 0"
    by (simp_all add: bits_eval)
  have "(i = 0 \<and> (j = 0 \<or> j = 1)) \<or> (i = 1 \<and> j = 0)" using i ij c by auto
  then show "is_int32 (from_e (edges abc_bits i j))" "is_int32 (to_e (edges abc_bits i j))"
    by (auto simp: bits_eval is_int32_def)
qed

theorem save_load_roundtrip_witness:
  "graph_rep abc_bits
   \<and> fst (graph_load graph_init (Some (graph_save abc_bits)))
   \<and> nodeCount (snd (graph_load graph_init (Some (graph_save abc_bits)))) = 3
   \<and> nodes (snd (graph_load graph_init (Some (graph_save abc_bits)))) 2 = nodes abc_bits 2
   \<and> \<not> active (nodes abc_bits 2)
   \<and> edgeCounts (snd (graph_load graph_init (Some (graph_save abc_bits)))) 0 = 2
   \<and> edges (snd (graph_load graph_init (Some (graph_save abc_bits)))) 0 1 = edges abc_bits 0 1
   \<and> weight (edges abc_bits 0 1) = 0x41F00000 \<and> \<not> eactive (edges abc_bits 0 1)"
proof -
  have ev: "nodeCount abc_bits = 3" "edgeCounts abc_bits 0 = 2" "\<not> active (nodes abc_bits 2)"
    "weight (edges abc_bits 0 1) = 0x41F00000" "\<not> eactive (edges abc_bits 0 1)"
    by (simp_all add: bits_eval)
  note rt = save_load_roundtrip [OF abc_bits_rep, of graph_init]
  have "nodes (snd (graph_load graph_init (Some (graph_save abc_bits)))) 2 = nodes abc_bits 2"
    using rt ev by simp
  moreover have "edgeCounts (snd (graph_load graph_init (Some (graph_save abc_bits)))) 0 = 2"
    using rt ev by (simp add: MAX_NODES_def)
  moreover have "edges (snd (graph_load graph_init (Some (graph_save abc_bits)))) 0 1
      = edges abc_bits 0 1"
    using rt ev by simp
  ultimately show ?thesis using rt ev abc_bits_rep by simp
qed

text \<open>The failures \<open>graph_load\<close> does detect, and the graph they leave.\<close>

lemma graph_load_rejects:
  "graph_load g None = (False, g)"
  "take 8 f \<noteq> magic \<Longrightarrow> graph_load g (Some f) = (False, g)"
  "take 8 f = magic \<Longrightarrow> length f < 12 \<Longrightarrow>
     graph_load g (Some f) =
       (False, graph_init\<lparr>nodeCount := dec_int (drop 8 f @ drop (length f - 8) (enc_int 0))\<rparr>)"
  by (auto simp: graph_load_def Let_def magic_def read_elem_def graph_init_def)

text \<open>
  A file cut inside the node count: the load fails, and the two bytes that were read are
  in \<open>nodeCount\<close>.
\<close>

lemma graph_load_cut_count:
  "graph_load g (Some (magic @ [5, 0])) = (False, graph_init\<lparr>nodeCount := 5\<rparr>)"
  using graph_load_rejects(3) [of "magic @ [5, 0]" g]
  by (simp add: magic_def dec_int_def dec_u32_def enc_int_def enc_u32_def)

text \<open>
  Claim C5 at a truncated file: the magic and a node count of 1, then nothing. The reads
  of the node record, of the edge-count table and of the edges are short, yet
  \<open>graph_load\<close> returns success, with one node whose fields are all zero.
\<close>
theorem load_truncated_file:
  "take 8 truncated_file = magic \<and> length truncated_file = 12
   \<and> fst (graph_load g (Some truncated_file)) = True
   \<and> nodeCount (snd (graph_load g (Some truncated_file))) = 1
   \<and> nodes (snd (graph_load g (Some truncated_file))) 0 = zero_node"
proof -
  have d: "dec_int [1, 0, 0, 0] = 1" by (simp add: dec_int_def dec_u32_def)
  have z: "is_int32 0" by (simp add: is_int32_def)
  have c: "read_counts (\<lambda>_. 0) [] = (\<lambda>_. 0, [])"
    by (rule read_counts_eof) (rule z)
  show ?thesis
    by (simp add: truncated_file_def graph_load_def magic_def Let_def d for_loop.simps
        load_node_def read_elem_def read_bytes_def c graph_init_def
        zero_node_def MAX_NAME_LENGTH_def dec_enc_int [OF z] dec_enc_float dec_enc_bool)
qed

theorem load_truncated_file_witness:
  "length truncated_file = 12
   \<and> fst (graph_load abc_bits (Some truncated_file)) = True
   \<and> nodeCount (snd (graph_load abc_bits (Some truncated_file))) = 1"
  using load_truncated_file [of abc_bits] by simp

section \<open>The priority queue keeps its entries\<close>

lemma map_pq_swap:
  assumes "i < n" and "j < n"
  shows "map (pq_swap a i j) [0..<n] = (map a [0..<n])[i := a j, j := a i]"
  using assms by (intro nth_equalityI) (auto simp: pq_swap_def nth_list_update)

lemma mset_pq_swap:
  assumes "i < n" and "j < n"
  shows "mset (map (pq_swap a i j) [0..<n]) = mset (map a [0..<n])"
proof -
  have "mset ((map a [0..<n])[i := (map a [0..<n]) ! j, j := (map a [0..<n]) ! i])
      = mset (map a [0..<n])"
    using assms by (intro mset_swap) simp_all
  then show ?thesis using assms by (simp add: map_pq_swap)
qed

lemma heapify_up_mset:
  assumes "idx < n"
  shows "mset (map (pq_nodes (pq_heapify_up pq idx)) [0..<n]) = mset (map (pq_nodes pq) [0..<n])"
  using assms
proof (induction pq idx rule: pq_heapify_up.induct)
  case (1 pq idx)
  let ?p = "(idx - 1) div 2"
  show ?case
  proof (cases "0 < idx \<and> flt (pq_fScore (pq_nodes pq idx)) (pq_fScore (pq_nodes pq ?p))")
    case True
    let ?pq = "pq\<lparr>pq_nodes := pq_swap (pq_nodes pq) idx ?p\<rparr>"
    have p: "?p < n" using True "1.prems" by arith
    have "mset (map (pq_nodes (pq_heapify_up ?pq ?p)) [0..<n]) = mset (map (pq_nodes ?pq) [0..<n])"
      using "1.IH" True p by blast
    also have "\<dots> = mset (map (pq_nodes pq) [0..<n])"
      using mset_pq_swap [OF "1.prems" p] by simp
    finally show ?thesis using True by (subst pq_heapify_up.simps) simp
  next
    case False
    then show ?thesis by (subst pq_heapify_up.simps) auto
  qed
qed

lemma heapify_down_mset:
  assumes "idx < pq_size pq"
  shows "mset (pq_list (pq_heapify_down pq idx)) = mset (pq_list pq)"
  using assms
proof (induction pq idx rule: pq_heapify_down.induct)
  case (1 pq idx)
  let ?s = "smallest_of pq idx"
  show ?case
  proof (cases "?s \<noteq> idx")
    case True
    let ?pq = "pq\<lparr>pq_nodes := pq_swap (pq_nodes pq) idx ?s\<rparr>"
    have s: "?s < pq_size pq" using smallest_of_range(2) [of pq idx] True by simp
    have "mset (pq_list (pq_heapify_down ?pq ?s)) = mset (pq_list ?pq)"
      using "1.IH" True s by simp
    also have "\<dots> = mset (pq_list pq)"
      using mset_pq_swap [OF "1.prems" s] by (simp add: pq_list_def)
    finally show ?thesis using True by (subst pq_heapify_down.simps) simp
  next
    case False
    then show ?thesis by (subst pq_heapify_down.simps) auto
  qed
qed

lemma pq_list_size: "length (pq_list pq) = pq_size pq"
  by (simp add: pq_list_def)

lemma pq_push_content:
  assumes "pq_size pq < pq_capacity pq"
  shows "fst (pq_push pq v f)"
    and "pq_size (snd (pq_push pq v f)) = pq_size pq + 1"
    and "pq_capacity (snd (pq_push pq v f)) = pq_capacity pq"
    and "mset (pq_list (snd (pq_push pq v f)))
           = add_mset \<lparr>pq_nodeId = v, pq_fScore = f\<rparr> (mset (pq_list pq))"
proof -
  let ?e = "\<lparr>pq_nodeId = v, pq_fScore = f\<rparr>"
  let ?pq1 = "pq\<lparr>pq_nodes := (pq_nodes pq)(pq_size pq := ?e)\<rparr>"
  let ?n = "pq_size pq"
  have r: "pq_push pq v f = (True, (pq_heapify_up ?pq1 ?n)\<lparr>pq_size := ?n + 1\<rparr>)"
    using assms by (simp add: pq_push_def Let_def heapify_up_fields)
  show "fst (pq_push pq v f)" "pq_size (snd (pq_push pq v f)) = pq_size pq + 1"
    "pq_capacity (snd (pq_push pq v f)) = pq_capacity pq"
    by (simp_all add: r heapify_up_fields)
  have "mset (map (pq_nodes (pq_heapify_up ?pq1 ?n)) [0..<?n + 1])
      = mset (map (pq_nodes ?pq1) [0..<?n + 1])"
    by (rule heapify_up_mset) simp
  also have "\<dots> = add_mset ?e (mset (map (pq_nodes pq) [0..<?n]))"
    by simp
  finally show "mset (pq_list (snd (pq_push pq v f))) = add_mset ?e (mset (pq_list pq))"
    by (simp add: r pq_list_def)
qed

lemma pq_pop_content:
  assumes "0 < pq_size pq"
  shows "\<exists>pq'. pq_pop pq = Some (pq_nodeId (pq_nodes pq 0), pq_fScore (pq_nodes pq 0), pq')
           \<and> pq_size pq' = pq_size pq - 1 \<and> pq_capacity pq' = pq_capacity pq
           \<and> mset (pq_list pq) = add_mset (pq_nodes pq 0) (mset (pq_list pq'))"
proof (cases "pq_size pq - 1 > 0")
  case False
  then have one: "pq_size pq = 1" using assms by simp
  then show ?thesis by (simp add: pq_pop_def Let_def pq_list_def)
next
  case True
  let ?m = "pq_size pq - 1"
  let ?pq1 = "pq\<lparr>pq_size := ?m, pq_nodes := (pq_nodes pq)(0 := pq_nodes pq ?m)\<rparr>"
  have r: "pq_pop pq = Some (pq_nodeId (pq_nodes pq 0), pq_fScore (pq_nodes pq 0),
      pq_heapify_down ?pq1 0)"
    using True assms by (simp add: pq_pop_def Let_def)
  have "mset (pq_list (pq_heapify_down ?pq1 0)) = mset (pq_list ?pq1)"
    using True by (intro heapify_down_mset) simp
  moreover have "add_mset (pq_nodes pq 0) (mset (pq_list ?pq1)) = mset (pq_list pq)"
  proof -
    have sz: "pq_size pq = Suc ?m" using assms by simp
    have l1: "pq_list ?pq1 = (map (pq_nodes pq) [0..<?m])[0 := pq_nodes pq ?m]"
      using True by (intro nth_equalityI) (auto simp: pq_list_def nth_list_update)
    have "[0..<?m] = 0 # [1..<?m]" using True by (simp add: upt_rec)
    then have l2: "pq_list ?pq1 = pq_nodes pq ?m # map (pq_nodes pq) [1..<?m]"
      using l1 by simp
    have "[0..<pq_size pq] = 0 # [1..<?m] @ [?m]"
      using True sz by (metis One_nat_def Suc_leI upt_Suc_append upt_rec zero_less_Suc)
    then have "pq_list pq = pq_nodes pq 0 # map (pq_nodes pq) [1..<?m] @ [pq_nodes pq ?m]"
      by (simp add: pq_list_def)
    then show ?thesis using l2 by simp
  qed
  ultimately show ?thesis using r by (simp add: heapify_down_fields)
qed

lemma heap_root_min:
  assumes "heap_inv pq" and "k < pq_size pq"
  shows "pq_fScore (pq_nodes pq 0) \<le> pq_fScore (pq_nodes pq k)"
  using assms(2)
proof (induction k rule: less_induct)
  case (less k)
  show ?case
  proof (cases "k = 0")
    case True
    then show ?thesis by simp
  next
    case False
    let ?p = "(k - 1) div 2"
    have p: "?p < k" using False by arith
    have "pq_fScore (pq_nodes pq 0) \<le> pq_fScore (pq_nodes pq ?p)"
      using less.IH [OF p] p less.prems by simp
    also have "\<dots> \<le> pq_fScore (pq_nodes pq k)"
      using assms(1) False less.prems by (simp add: heap_inv_def heap_upto_def)
    finally show ?thesis .
  qed
qed

lemma heap_root_min_list:
  assumes "heap_inv pq" and "e \<in> set (pq_list pq)"
  shows "pq_fScore (pq_nodes pq 0) \<le> pq_fScore e"
  using assms heap_root_min [OF assms(1)] by (auto simp: pq_list_def)

lemma pq_has_ids: "pq_has pq v \<longleftrightarrow> v \<in> set (pq_ids pq)"
  by (simp add: pq_has_def pq_ids_def pq_list_def comp_def)

lemma pq_ids_size: "length (pq_ids pq) = pq_size pq"
  by (simp add: pq_ids_def pq_list_def)

lemma decrease_from_found:
  assumes "i \<le> k" and "k < pq_size pq" and "pq_nodeId (pq_nodes pq k) = v"
    and "\<And>l. i \<le> l \<Longrightarrow> l < k \<Longrightarrow> pq_nodeId (pq_nodes pq l) \<noteq> v"
  shows "decrease_from pq v newF i =
           (if flt newF (pq_fScore (pq_nodes pq k))
            then pq_heapify_up
                   (pq\<lparr>pq_nodes := (pq_nodes pq)(k := (pq_nodes pq k)\<lparr>pq_fScore := newF\<rparr>)\<rparr>) k
            else pq)"
  using assms(1,4)
proof (induction "k - i" arbitrary: i)
  case 0
  then have "i = k" by simp
  then show ?case using assms(2,3) by (subst decrease_from.simps) simp
next
  case (Suc d)
  then have lt: "i < k" and d: "d = k - (i + 1)" by auto
  have miss: "pq_nodeId (pq_nodes pq i) \<noteq> v" using Suc.prems(2) [of i] lt by simp
  have "decrease_from pq v newF i = decrease_from pq v newF (i + 1)"
    using lt assms(2) miss by (subst decrease_from.simps) simp
  also have "\<dots> = (if flt newF (pq_fScore (pq_nodes pq k))
            then pq_heapify_up
                   (pq\<lparr>pq_nodes := (pq_nodes pq)(k := (pq_nodes pq k)\<lparr>pq_fScore := newF\<rparr>)\<rparr>) k
            else pq)"
    using lt Suc.prems(2) by (intro Suc.hyps(1) [OF d]) auto
  finally show ?case .
qed

lemma first_slot:
  assumes "v \<in> set (pq_ids pq)"
  shows "\<exists>k. k < pq_size pq \<and> pq_nodeId (pq_nodes pq k) = v
           \<and> (\<forall>l. l < k \<longrightarrow> pq_nodeId (pq_nodes pq l) \<noteq> v)"
proof -
  let ?P = "\<lambda>k. k < pq_size pq \<and> pq_nodeId (pq_nodes pq k) = v"
  from assms obtain k0 where "?P k0" by (auto simp: pq_ids_def pq_list_def)
  then have "?P (LEAST k. ?P k)" by (rule LeastI)
  moreover have "\<And>l. l < (LEAST k. ?P k) \<Longrightarrow> \<not> ?P l" by (rule not_less_Least)
  ultimately show ?thesis
    by (intro exI [of _ "LEAST k. ?P k"]) (metis (no_types, lifting) less_trans)
qed

lemma pq_decrease_content:
  assumes "v \<in> set (pq_ids pq)"
  shows "\<exists>k. k < pq_size pq \<and> pq_nodeId (pq_nodes pq k) = v
           \<and> (if flt newF (pq_fScore (pq_nodes pq k))
               then pq_size (pq_decrease_priority pq v newF) = pq_size pq
                    \<and> pq_capacity (pq_decrease_priority pq v newF) = pq_capacity pq
                    \<and> mset (pq_list (pq_decrease_priority pq v newF))
                        = mset ((pq_list pq)[k := \<lparr>pq_nodeId = v, pq_fScore = newF\<rparr>])
               else pq_decrease_priority pq v newF = pq)"
proof -
  from first_slot [OF assms] obtain k where k: "k < pq_size pq" "pq_nodeId (pq_nodes pq k) = v"
    "\<And>l. l < k \<Longrightarrow> pq_nodeId (pq_nodes pq l) \<noteq> v" by blast
  let ?e = "(pq_nodes pq k)\<lparr>pq_fScore := newF\<rparr>"
  let ?pq1 = "pq\<lparr>pq_nodes := (pq_nodes pq)(k := ?e)\<rparr>"
  have r: "pq_decrease_priority pq v newF =
      (if flt newF (pq_fScore (pq_nodes pq k)) then pq_heapify_up ?pq1 k else pq)"
    unfolding pq_decrease_priority_def
    using k by (intro decrease_from_found) auto
  have e: "?e = \<lparr>pq_nodeId = v, pq_fScore = newF\<rparr>"
    using k(2) by (cases "pq_nodes pq k") simp
  have a: "mset (map (pq_nodes (pq_heapify_up ?pq1 k)) [0..<pq_size pq])
      = mset (map (pq_nodes ?pq1) [0..<pq_size pq])"
    using k(1) by (rule heapify_up_mset)
  have b: "map (pq_nodes ?pq1) [0..<pq_size pq] = (pq_list pq)[k := ?e]"
    using k(1) by (intro nth_equalityI) (auto simp: pq_list_def nth_list_update)
  have c: "pq_list (pq_heapify_up ?pq1 k) = map (pq_nodes (pq_heapify_up ?pq1 k)) [0..<pq_size pq]"
    by (simp add: pq_list_def heapify_up_fields)
  have "mset (pq_list (pq_heapify_up ?pq1 k)) = mset ((pq_list pq)[k := ?e])"
    unfolding c a b ..
  then have m: "mset (pq_list (pq_heapify_up ?pq1 k))
      = mset ((pq_list pq)[k := \<lparr>pq_nodeId = v, pq_fScore = newF\<rparr>])"
    by (simp only: e)
  show ?thesis
  proof (cases "flt newF (pq_fScore (pq_nodes pq k))")
    case True
    then have "pq_decrease_priority pq v newF = pq_heapify_up ?pq1 k" using r by simp
    then show ?thesis using k(1,2) True m
      by (intro exI [of _ k]) (simp add: heapify_up_fields)
  next
    case False
    then have "pq_decrease_priority pq v newF = pq" using r by simp
    then show ?thesis using k(1,2) False by (intro exI [of _ k]) simp
  qed
qed

lemma pq_decrease_ids:
  assumes "v \<in> set (pq_ids pq)"
  shows "pq_size (pq_decrease_priority pq v newF) = pq_size pq"
    and "pq_capacity (pq_decrease_priority pq v newF) = pq_capacity pq"
    and "mset (pq_ids (pq_decrease_priority pq v newF)) = mset (pq_ids pq)"
proof -
  from pq_decrease_content [OF assms, of newF] obtain k where
    k: "k < pq_size pq" "pq_nodeId (pq_nodes pq k) = v"
    and c: "if flt newF (pq_fScore (pq_nodes pq k))
               then pq_size (pq_decrease_priority pq v newF) = pq_size pq
                    \<and> pq_capacity (pq_decrease_priority pq v newF) = pq_capacity pq
                    \<and> mset (pq_list (pq_decrease_priority pq v newF))
                        = mset ((pq_list pq)[k := \<lparr>pq_nodeId = v, pq_fScore = newF\<rparr>])
               else pq_decrease_priority pq v newF = pq" by blast
  show "pq_size (pq_decrease_priority pq v newF) = pq_size pq"
    "pq_capacity (pq_decrease_priority pq v newF) = pq_capacity pq"
    using c by (auto split: if_splits)
  have "map pq_nodeId ((pq_list pq)[k := \<lparr>pq_nodeId = v, pq_fScore = newF\<rparr>]) = pq_ids pq"
    using k by (intro nth_equalityI) (auto simp: pq_ids_def pq_list_def nth_list_update)
  then have "mset (map pq_nodeId ((pq_list pq)[k := \<lparr>pq_nodeId = v, pq_fScore = newF\<rparr>]))
      = mset (pq_ids pq)" by simp
  then show "mset (pq_ids (pq_decrease_priority pq v newF)) = mset (pq_ids pq)"
    using c by (auto simp: pq_ids_def split: if_splits)
qed

section \<open>The bookkeeping invariant of the search\<close>

lemma pushed_ids_append:
  "pushed_ids (es @ [Pushed v ok]) = pushed_ids es @ [v]"
  "pushed_ids (es @ [Decreased v ok]) = pushed_ids es"
  by (induction es rule: pushed_ids.induct) simp_all

lemma ids_bound:
  assumes "distinct ids" and "\<And>v. v \<in> set ids \<Longrightarrow> 0 \<le> v \<and> v < n" and "0 \<le> n"
  shows "int (length ids) \<le> n"
proof -
  have "set ids \<subseteq> {0..<n}" using assms(2) by auto
  then have "card (set ids) \<le> card {0..<n}" by (intro card_mono) auto
  then show ?thesis using assms(1,3) by (simp add: distinct_card)
qed

lemma ids_room:
  assumes "distinct ids" and "\<And>v. v \<in> set ids \<Longrightarrow> 0 \<le> v \<and> v < n"
    and "0 \<le> w" and "w < n" and "w \<notin> set ids"
  shows "int (length ids) < n"
proof -
  have "int (length (w # ids)) \<le> n"
    using assms by (intro ids_bound) auto
  then show ?thesis by simp
qed

lemma astar_init_struct:
  assumes "0 \<le> s" and "s < nodeCount g"
  shows "astar_struct g (astar_init g cfg s t)"
proof -
  note f = astar_init_fields [OF assms, of cfg t]
  have ids: "pq_ids (openSet (astar_init g cfg s t)) = [s]"
    by (simp add: f(1) pq_ids_def pq_list_def)
  show ?thesis
    unfolding astar_struct_def ids
    using assms by (simp add: f)
qed

text \<open>The three outcomes of relaxing an edge, field by field.\<close>

lemma relax_edge_skip:
  assumes "\<not> (eactive (edges g u j) \<and> active (nodes g (to_e (edges g u j)))
      \<and> \<not> inClosedSet st (to_e (edges g u j))
      \<and> flt (fadd (gScore st u) (weight (edges g u j))) (gScore st (to_e (edges g u j))))"
  shows "relax_edge g cfg t u j st = st"
  using assms by (auto simp: relax_edge_def Let_def)

lemma relax_edge_push:
  assumes v: "v = to_e (edges g u j)" and tg: "tg = fadd (gScore st u) (weight (edges g u j))"
    and h: "h = fmul (astar_heuristic (Some (nodes g v)) (Some (nodes g t)) (heuristic cfg))
                    (heuristicWeight cfg)"
    and c: "eactive (edges g u j)" "active (nodes g v)" "\<not> inClosedSet st v" "flt tg (gScore st v)"
    and o: "\<not> inOpenSet st v"
    and st': "st' = relax_edge g cfg t u j st"
  shows "gScore st' = (gScore st)(v := tg)"
    and "fScore st' = (fScore st)(v := fadd tg h)"
    and "cameFrom st' = (cameFrom st)(v := u)"
    and "inClosedSet st' = inClosedSet st"
    and "inOpenSet st' = (inOpenSet st)(v := True)"
    and "openSet st' = snd (pq_push (openSet st) v (fadd tg h))"
    and "pq_calls st' = pq_calls st @ [Pushed v (fst (pq_push (openSet st) v (fadd tg h)))]"
    and "maxOpenSetSize (localStats st') =
           max (maxOpenSetSize (localStats st)) (int (pq_size (openSet st')))"
  using c o unfolding st' v tg h
  by (simp_all add: relax_edge_def Let_def)

lemma relax_edge_decrease:
  assumes v: "v = to_e (edges g u j)" and tg: "tg = fadd (gScore st u) (weight (edges g u j))"
    and h: "h = fmul (astar_heuristic (Some (nodes g v)) (Some (nodes g t)) (heuristic cfg))
                    (heuristicWeight cfg)"
    and c: "eactive (edges g u j)" "active (nodes g v)" "\<not> inClosedSet st v" "flt tg (gScore st v)"
    and o: "inOpenSet st v"
    and st': "st' = relax_edge g cfg t u j st"
  shows "gScore st' = (gScore st)(v := tg)"
    and "fScore st' = (fScore st)(v := fadd tg h)"
    and "cameFrom st' = (cameFrom st)(v := u)"
    and "inClosedSet st' = inClosedSet st"
    and "inOpenSet st' = inOpenSet st"
    and "openSet st' = pq_decrease_priority (openSet st) v (fadd tg h)"
    and "pq_calls st' = pq_calls st @ [Decreased v (pq_has (openSet st) v)]"
    and "localStats st' = localStats st"
  using c o unfolding st' v tg h
  by (simp_all add: relax_edge_def Let_def)

lemma relax_edge_struct:
  assumes inv: "astar_struct g st" and wf: "graph_wf g"
    and u: "0 \<le> u" "u < nodeCount g" and j: "0 \<le> j" "j < edgeCounts g u"
  shows "astar_struct g (relax_edge g cfg t u j st)
         \<and> inClosedSet (relax_edge g cfg t u j st) = inClosedSet st"
proof -
  define v where "v = to_e (edges g u j)"
  define tg where "tg = fadd (gScore st u) (weight (edges g u j))"
  define h where "h = fmul (astar_heuristic (Some (nodes g v)) (Some (nodes g t)) (heuristic cfg))
                    (heuristicWeight cfg)"
  define st' where "st' = relax_edge g cfg t u j st"
  let ?pq = "openSet st"
  from inv have cap: "pq_capacity ?pq = nat (nodeCount g)"
    and dist: "distinct (pq_ids ?pq)"
    and op: "\<And>w. inOpenSet st w \<longleftrightarrow> w \<in> set (pq_ids ?pq)"
    and disj: "\<And>w. inOpenSet st w \<Longrightarrow> \<not> inClosedSet st w"
    and rng: "\<And>w. inOpenSet st w \<or> inClosedSet st w \<Longrightarrow> 0 \<le> w \<and> w < nodeCount g"
    and pd: "distinct (pushed_ids (pq_calls st))"
    and ps: "set (pushed_ids (pq_calls st)) = {w. inOpenSet st w \<or> inClosedSet st w}"
    and ev: "\<And>e. e \<in> set (pq_calls st) \<Longrightarrow> event_ok e"
    and sz: "int (pq_size ?pq) \<le> maxOpenSetSize (localStats st)"
    and mx: "maxOpenSetSize (localStats st) \<le> nodeCount g"
    unfolding astar_struct_def by blast+
  show ?thesis
  proof (cases "eactive (edges g u j) \<and> active (nodes g v) \<and> \<not> inClosedSet st v
      \<and> flt tg (gScore st v)")
    case False
    then have "relax_edge g cfg t u j st = st"
      unfolding v_def tg_def by (rule relax_edge_skip)
    then show ?thesis using inv by simp
  next
    case True
    then have c: "eactive (edges g u j)" "active (nodes g v)" "\<not> inClosedSet st v"
      "flt tg (gScore st v)" by auto
    have vr: "0 \<le> v" "v < nodeCount g"
      using wf u j c(1) unfolding graph_wf_def v_def by blast+
    show ?thesis
    proof (cases "inOpenSet st v")
      case False
      note f = relax_edge_push [OF v_def tg_def h_def c False st'_def]
      have notin: "v \<notin> set (pq_ids ?pq)" using False op by simp
      have "int (length (pq_ids ?pq)) < nodeCount g"
        using dist vr notin rng op by (intro ids_room [where w = v]) auto
      then have room: "pq_size ?pq < pq_capacity ?pq"
        using cap by (simp add: pq_ids_size)
      note p = pq_push_content [OF room, of v "fadd tg h"]
      have ids: "mset (pq_ids (openSet st')) = add_mset v (mset (pq_ids ?pq))"
        using p(4) unfolding f(6) pq_ids_def
        by (metis (no_types, lifting) PQNode.select_convs(1) mset_map image_mset_add_mset)
      have set_ids: "set (pq_ids (openSet st')) = insert v (set (pq_ids ?pq))"
        using ids by (metis set_mset_add_mset_insert set_mset_mset)
      have dist': "distinct (pq_ids (openSet st'))"
        using ids dist notin
        by (metis distinct.simps(2) mset.simps(2) mset_eq_imp_distinct_iff)
      have len': "int (pq_size (openSet st')) \<le> nodeCount g"
      proof -
        have "int (length (pq_ids (openSet st'))) \<le> nodeCount g"
          using dist' set_ids vr rng op u by (intro ids_bound) auto
        then show ?thesis by (simp add: pq_ids_size)
      qed
      have "astar_struct g st'"
        unfolding astar_struct_def
      proof (intro conjI allI impI ballI)
        show "pq_capacity (openSet st') = nat (nodeCount g)" using p(3) cap f(6) by simp
        show "distinct (pq_ids (openSet st'))" by (rule dist')
        show "inOpenSet st' w \<longleftrightarrow> w \<in> set (pq_ids (openSet st'))" for w
          using op set_ids by (simp add: f(5))
        show "\<not> inClosedSet st' w" if "inOpenSet st' w" for w
          using that disj c(3) by (auto simp: f(4,5) split: if_splits)
        show "0 \<le> w" "w < nodeCount g" if "inOpenSet st' w \<or> inClosedSet st' w" for w
          using that rng vr by (auto simp: f(4,5) split: if_splits)
        show "distinct (pushed_ids (pq_calls st'))"
          using pd ps False c(3) by (simp add: f(7) pushed_ids_append)
        show "set (pushed_ids (pq_calls st')) = {w. inOpenSet st' w \<or> inClosedSet st' w}"
          using ps by (auto simp: f(4,5,7) pushed_ids_append)
        show "event_ok e" if "e \<in> set (pq_calls st')" for e
          using that ev p(1) by (auto simp: f(7))
        show "int (pq_size (openSet st')) \<le> maxOpenSetSize (localStats st')"
          by (simp add: f(8))
        show "maxOpenSetSize (localStats st') \<le> nodeCount g"
          using mx len' by (simp add: f(8))
      qed
      then show ?thesis using f(4) by (simp add: st'_def)
    next
      case True
      note f = relax_edge_decrease [OF v_def tg_def h_def c True st'_def]
      have isin: "v \<in> set (pq_ids ?pq)" using True op by simp
      note d = pq_decrease_ids [OF isin, of "fadd tg h"]
      have set_ids: "set (pq_ids (openSet st')) = set (pq_ids ?pq)"
        using d(3) unfolding f(6) by (rule mset_eq_setD)
      have dist': "distinct (pq_ids (openSet st'))"
        using d(3) dist unfolding f(6) by (metis mset_eq_imp_distinct_iff)
      have "astar_struct g st'"
        unfolding astar_struct_def
      proof (intro conjI allI impI ballI)
        show "pq_capacity (openSet st') = nat (nodeCount g)" using d(2) cap f(6) by simp
        show "distinct (pq_ids (openSet st'))" by (rule dist')
        show "inOpenSet st' w \<longleftrightarrow> w \<in> set (pq_ids (openSet st'))" for w
          using op set_ids by (simp add: f(5))
        show "\<not> inClosedSet st' w" if "inOpenSet st' w" for w
          using that disj by (simp add: f(4,5))
        show "0 \<le> w" "w < nodeCount g" if "inOpenSet st' w \<or> inClosedSet st' w" for w
          using that rng by (auto simp: f(4,5))
        show "distinct (pushed_ids (pq_calls st'))"
          using pd by (simp add: f(7) pushed_ids_append)
        show "set (pushed_ids (pq_calls st')) = {w. inOpenSet st' w \<or> inClosedSet st' w}"
          using ps by (simp add: f(4,5,7) pushed_ids_append)
        show "event_ok e" if "e \<in> set (pq_calls st')" for e
          using that ev isin by (auto simp: f(7) pq_has_ids)
        show "int (pq_size (openSet st')) \<le> maxOpenSetSize (localStats st')"
          using sz d(1) by (simp add: f(6,8))
        show "maxOpenSetSize (localStats st') \<le> nodeCount g"
          using mx by (simp add: f(8))
      qed
      then show ?thesis using f(4) by (simp add: st'_def)
    qed
  qed
qed

text \<open>
  One iteration from a state that satisfies the invariant: the node popped is open, not
  closed and exists; the iteration either ends the search there or closes the node and
  relaxes its edges.
\<close>

lemma astar_iter_anatomy:
  assumes inv: "astar_struct g st" and ne: "\<not> pq_empty (openSet st)"
  obtains u pq' where
    "u = pq_nodeId (pq_nodes (openSet st) 0)"
    "inOpenSet st u" "\<not> inClosedSet st u" "0 \<le> u" "u < nodeCount g"
    "pq_size pq' = pq_size (openSet st) - 1" "pq_capacity pq' = pq_capacity (openSet st)"
    "mset (pq_list (openSet st)) = add_mset (pq_nodes (openSet st) 0) (mset (pq_list pq'))"
    "u = t \<Longrightarrow> astar_iter g cfg s t st =
        Inl (reconstruct_path (cameFrom st) (gScore st) s t (nodeCount g),
             st\<lparr>openSet := pq', inOpenSet := (inOpenSet st)(u := False),
                localStats := (localStats st)
                  \<lparr>nodesExplored := nodesExplored (localStats st) + 1,
                   nodesInOpenSet := int (pq_size pq')\<rparr>\<rparr>)"
    "u \<noteq> t \<Longrightarrow> astar_iter g cfg s t st =
        Inr (for_loop 0 (edgeCounts g u) (relax_edge g cfg t u)
               (st\<lparr>openSet := pq', inOpenSet := (inOpenSet st)(u := False),
                   localStats := (localStats st)
                     \<lparr>nodesExplored := nodesExplored (localStats st) + 1\<rparr>,
                   inClosedSet := (inClosedSet st)(u := True)\<rparr>))"
    "pq_pop (openSet st) = Some (u, pq_fScore (pq_nodes (openSet st) 0), pq')"
proof -
  let ?pq = "openSet st"
  define u where "u = pq_nodeId (pq_nodes ?pq 0)"
  have pos: "0 < pq_size ?pq" using ne by (simp add: pq_empty_def)
  from pq_pop_content [OF pos] obtain pq' where
    pop: "pq_pop ?pq = Some (u, pq_fScore (pq_nodes ?pq 0), pq')"
    and sz: "pq_size pq' = pq_size ?pq - 1" and cap: "pq_capacity pq' = pq_capacity ?pq"
    and ms: "mset (pq_list ?pq) = add_mset (pq_nodes ?pq 0) (mset (pq_list pq'))"
    unfolding u_def by blast
  have "u \<in> set (pq_ids ?pq)" using pos by (auto simp: u_def pq_ids_def pq_list_def)
  then have op: "inOpenSet st u" using inv unfolding astar_struct_def by blast
  then have ncl: "\<not> inClosedSet st u" and rng: "0 \<le> u" "u < nodeCount g"
    using inv unfolding astar_struct_def by blast+
  have goal: "astar_iter g cfg s t st =
        Inl (reconstruct_path (cameFrom st) (gScore st) s t (nodeCount g),
             st\<lparr>openSet := pq', inOpenSet := (inOpenSet st)(u := False),
                localStats := (localStats st)
                  \<lparr>nodesExplored := nodesExplored (localStats st) + 1,
                   nodesInOpenSet := int (pq_size pq')\<rparr>\<rparr>)" if "u = t"
    using that by (simp add: astar_iter_def pop Let_def)
  have other: "astar_iter g cfg s t st =
        Inr (for_loop 0 (edgeCounts g u) (relax_edge g cfg t u)
               (st\<lparr>openSet := pq', inOpenSet := (inOpenSet st)(u := False),
                   localStats := (localStats st)
                     \<lparr>nodesExplored := nodesExplored (localStats st) + 1\<rparr>,
                   inClosedSet := (inClosedSet st)(u := True)\<rparr>))" if "u \<noteq> t"
    using that ncl by (simp add: astar_iter_def pop Let_def)
  show thesis using that [OF u_def op ncl rng sz cap ms goal other pop] by blast
qed

lemma close_node_struct:
  assumes inv: "astar_struct g st"
    and u: "inOpenSet st u"
    and sz: "pq_size pq' = pq_size (openSet st) - 1"
    and cap: "pq_capacity pq' = pq_capacity (openSet st)"
    and ms: "mset (pq_list (openSet st)) = add_mset e (mset (pq_list pq'))"
    and e: "pq_nodeId e = u"
  shows "astar_struct g (st\<lparr>openSet := pq', inOpenSet := (inOpenSet st)(u := False),
                   localStats := (localStats st)\<lparr>nodesExplored := k\<rparr>,
                   inClosedSet := (inClosedSet st)(u := True)\<rparr>)"
proof -
  let ?pq = "openSet st"
  from inv have dist: "distinct (pq_ids ?pq)"
    and op: "\<And>w. inOpenSet st w \<longleftrightarrow> w \<in> set (pq_ids ?pq)"
    and rest: "pq_capacity ?pq = nat (nodeCount g)"
      "\<And>w. inOpenSet st w \<Longrightarrow> \<not> inClosedSet st w"
      "\<And>w. inOpenSet st w \<or> inClosedSet st w \<Longrightarrow> 0 \<le> w \<and> w < nodeCount g"
      "distinct (pushed_ids (pq_calls st))"
      "set (pushed_ids (pq_calls st)) = {w. inOpenSet st w \<or> inClosedSet st w}"
      "\<And>e. e \<in> set (pq_calls st) \<Longrightarrow> event_ok e"
      "int (pq_size ?pq) \<le> maxOpenSetSize (localStats st)"
      "maxOpenSetSize (localStats st) \<le> nodeCount g"
    unfolding astar_struct_def by blast+
  have ids: "mset (pq_ids ?pq) = add_mset u (mset (pq_ids pq'))"
    using ms e unfolding pq_ids_def by (metis mset_map image_mset_add_mset)
  have "mset (pq_ids ?pq) = mset (u # pq_ids pq')" using ids by simp
  then have "distinct (u # pq_ids pq')" using dist by (metis mset_eq_imp_distinct_iff)
  then have d': "distinct (pq_ids pq')" and nu: "u \<notin> set (pq_ids pq')" by auto
  have set_ids: "set (pq_ids ?pq) = insert u (set (pq_ids pq'))"
    using ids by (metis set_mset_add_mset_insert set_mset_mset)
  show ?thesis
    unfolding astar_struct_def
    using d' nu set_ids op rest u sz cap
    by (auto split: if_splits)
qed

lemma relax_loop_struct:
  assumes inv: "astar_struct g st" and wf: "graph_wf g"
    and u: "0 \<le> u" "u < nodeCount g"
  shows "astar_struct g (for_loop 0 (edgeCounts g u) (relax_edge g cfg t u) st)
         \<and> inClosedSet (for_loop 0 (edgeCounts g u) (relax_edge g cfg t u) st) = inClosedSet st"
proof (cases "0 \<le> edgeCounts g u")
  case False
  then show ?thesis using inv by (simp add: for_loop_skip)
next
  case True
  show ?thesis
  proof (rule for_loop_rule [where P = "\<lambda>j st'. astar_struct g st'
      \<and> inClosedSet st' = inClosedSet st"])
    show "astar_struct g st \<and> inClosedSet st = inClosedSet st" using inv by simp
    show "0 \<le> edgeCounts g u" by (rule True)
  next
    fix j st'
    assume j: "0 \<le> j" "j < edgeCounts g u"
      and "astar_struct g st' \<and> inClosedSet st' = inClosedSet st"
    then show "astar_struct g (relax_edge g cfg t u j st')
        \<and> inClosedSet (relax_edge g cfg t u j st') = inClosedSet st"
      using relax_edge_struct [OF _ wf u j, of st' cfg t] by simp
  qed
qed

lemma unclosed_drops:
  assumes "0 \<le> u" and "u < nodeCount g" and "\<not> inClosedSet st u"
    and "inClosedSet st' = (inClosedSet st)(u := True)"
  shows "unclosed g st' < unclosed g st"
proof -
  let ?A = "{v. 0 \<le> v \<and> v < nodeCount g \<and> \<not> inClosedSet st v}"
  have fin: "finite ?A" by (rule finite_subset [of _ "{0..<nodeCount g}"]) auto
  have "{v. 0 \<le> v \<and> v < nodeCount g \<and> \<not> inClosedSet st' v} = ?A - {u}"
    using assms(4) by auto
  moreover have "u \<in> ?A" using assms by simp
  then have "card (?A - {u}) < card ?A" using fin by (intro card_Diff1_less)
  ultimately show ?thesis
    unfolding unclosed_def by (simp only:)
qed

text \<open>An iteration that goes on keeps the invariant and closes one more node.\<close>

lemma astar_iter_struct:
  assumes inv: "astar_struct g st" and wf: "graph_wf g" and ne: "\<not> pq_empty (openSet st)"
    and it: "astar_iter g cfg s t st = Inr st'"
  shows "astar_struct g st' \<and> unclosed g st' < unclosed g st"
proof -
  from astar_iter_anatomy [OF inv ne, of t cfg s] obtain u pq' where
    a: "u = pq_nodeId (pq_nodes (openSet st) 0)"
    "inOpenSet st u" "\<not> inClosedSet st u" "0 \<le> u" "u < nodeCount g"
    "pq_size pq' = pq_size (openSet st) - 1" "pq_capacity pq' = pq_capacity (openSet st)"
    "mset (pq_list (openSet st)) = add_mset (pq_nodes (openSet st) 0) (mset (pq_list pq'))"
    and g1: "u = t \<Longrightarrow> astar_iter g cfg s t st =
        Inl (reconstruct_path (cameFrom st) (gScore st) s t (nodeCount g),
             st\<lparr>openSet := pq', inOpenSet := (inOpenSet st)(u := False),
                localStats := (localStats st)
                  \<lparr>nodesExplored := nodesExplored (localStats st) + 1,
                   nodesInOpenSet := int (pq_size pq')\<rparr>\<rparr>)"
    and g2: "u \<noteq> t \<Longrightarrow> astar_iter g cfg s t st =
        Inr (for_loop 0 (edgeCounts g u) (relax_edge g cfg t u)
               (st\<lparr>openSet := pq', inOpenSet := (inOpenSet st)(u := False),
                   localStats := (localStats st)
                     \<lparr>nodesExplored := nodesExplored (localStats st) + 1\<rparr>,
                   inClosedSet := (inClosedSet st)(u := True)\<rparr>))"
    by blast
  let ?st2 = "st\<lparr>openSet := pq', inOpenSet := (inOpenSet st)(u := False),
                   localStats := (localStats st)
                     \<lparr>nodesExplored := nodesExplored (localStats st) + 1\<rparr>,
                   inClosedSet := (inClosedSet st)(u := True)\<rparr>"
  have ut: "u \<noteq> t" using g1 it by auto
  then have st': "st' = for_loop 0 (edgeCounts g u) (relax_edge g cfg t u) ?st2"
    using g2 it by simp
  have s2: "astar_struct g ?st2"
    using a by (intro close_node_struct [OF inv]) (auto simp: a(1))
  from relax_loop_struct [OF s2 wf a(4,5), of cfg t]
  have "astar_struct g st'" and cl: "inClosedSet st' = (inClosedSet st)(u := True)"
    unfolding st' by simp_all
  then show ?thesis using unclosed_drops [OF a(4,5,3) cl] by simp
qed

text \<open>
  Total correctness of the main loop from an invariant: if every iteration that goes on
  re-establishes the invariant and closes a node, the loop returns, and what it returns
  satisfies whatever both exits establish.
\<close>

lemma astar_loop_total:
  assumes inv: "I st"
    and step: "\<And>st st'. I st \<Longrightarrow> \<not> pq_empty (openSet st) \<Longrightarrow>
        astar_iter g cfg s t st = Inr st' \<Longrightarrow> I st' \<and> unclosed g st' < unclosed g st"
    and empty: "\<And>st. I st \<Longrightarrow> pq_empty (openSet st) \<Longrightarrow> Q (path_result_create, st)"
    and found: "\<And>st r. I st \<Longrightarrow> \<not> pq_empty (openSet st) \<Longrightarrow>
        astar_iter g cfg s t st = Inl r \<Longrightarrow> Q r"
  shows "\<exists>r. astar_loop g cfg s t st = Some r \<and> Q r"
  using inv
proof (induction "unclosed g st" arbitrary: st rule: less_induct)
  case less
  show ?case
  proof (cases "pq_empty (openSet st)")
    case True
    then show ?thesis using empty [OF less.prems] by (subst astar_loop.simps) simp
  next
    case False
    show ?thesis
    proof (cases "astar_iter g cfg s t st")
      case (Inl r)
      then show ?thesis using found [OF less.prems False] False
        by (subst astar_loop.simps) simp
    next
      case (Inr st')
      from step [OF less.prems False Inr] have "I st'" "unclosed g st' < unclosed g st"
        by simp_all
      from less.hyps [OF this(2,1)] show ?thesis using False Inr
        by (subst astar_loop.simps) simp
    qed
  qed
qed

text \<open>
  Claim C10. On a well-formed graph, with start and goal in range, the search returns,
  and over the whole run: no node id is pushed twice; every \<open>pq_push\<close> returned true
  (the capacity test never rejected); every \<open>pq_decrease_priority\<close> found the entry of
  its node, so it never fell through to a push; and the peak queue size the search
  records is at most the node count. This holds for every heuristic and every weight.
\<close>
theorem each_node_pushed_once:
  assumes wf: "graph_wf g"
    and s: "0 \<le> s" "s < nodeCount g" and t: "0 \<le> t" "t < nodeCount g"
  shows "\<exists>r stats calls. astar_find_path g s t config = Some (r, Some stats, calls)
           \<and> distinct (pushed_ids calls) \<and> (\<forall>e \<in> set calls. event_ok e)
           \<and> maxOpenSetSize stats \<le> nodeCount g"
proof -
  define cfg where "cfg = (case config of Some c \<Rightarrow> c | None \<Rightarrow> astar_default_config)"
  let ?Q = "\<lambda>r. distinct (pushed_ids (pq_calls (snd r)))
      \<and> (\<forall>e \<in> set (pq_calls (snd r)). event_ok e)
      \<and> maxOpenSetSize (localStats (snd r)) \<le> nodeCount g"
  have "\<exists>r. astar_loop g cfg s t (astar_init g cfg s t) = Some r \<and> ?Q r"
  proof (rule astar_loop_total [where I = "astar_struct g"])
    show "astar_struct g (astar_init g cfg s t)" using s by (rule astar_init_struct)
  next
    fix st st'
    assume "astar_struct g st" "\<not> pq_empty (openSet st)" "astar_iter g cfg s t st = Inr st'"
    then show "astar_struct g st' \<and> unclosed g st' < unclosed g st"
      using astar_iter_struct [OF _ wf] by blast
  next
    fix st assume "astar_struct g st"
    then show "?Q (path_result_create, st)" unfolding astar_struct_def by simp
  next
    fix st r
    assume inv: "astar_struct g st" and ne: "\<not> pq_empty (openSet st)"
      and it: "astar_iter g cfg s t st = Inl r"
    from astar_iter_anatomy [OF inv ne, of t cfg s] obtain u pq' where
      g1: "u = t \<Longrightarrow> astar_iter g cfg s t st =
        Inl (reconstruct_path (cameFrom st) (gScore st) s t (nodeCount g),
             st\<lparr>openSet := pq', inOpenSet := (inOpenSet st)(u := False),
                localStats := (localStats st)
                  \<lparr>nodesExplored := nodesExplored (localStats st) + 1,
                   nodesInOpenSet := int (pq_size pq')\<rparr>\<rparr>)"
      and g2: "u \<noteq> t \<Longrightarrow> astar_iter g cfg s t st =
        Inr (for_loop 0 (edgeCounts g u) (relax_edge g cfg t u)
               (st\<lparr>openSet := pq', inOpenSet := (inOpenSet st)(u := False),
                   localStats := (localStats st)
                     \<lparr>nodesExplored := nodesExplored (localStats st) + 1\<rparr>,
                   inClosedSet := (inClosedSet st)(u := True)\<rparr>))"
      by blast
    have "u = t" using g2 it by auto
    then have "pq_calls (snd r) = pq_calls st"
      "maxOpenSetSize (localStats (snd r)) = maxOpenSetSize (localStats st)"
      using g1 it by auto
    then show "?Q r" using inv unfolding astar_struct_def by simp
  qed
  then obtain r where "astar_loop g cfg s t (astar_init g cfg s t) = Some r" "?Q r" by blast
  then show ?thesis using s t
    by (cases r) (simp add: astar_find_path_def Let_def cfg_def)
qed

lemma abc_graph_wf: "graph_wf abc_graph"
  unfolding graph_wf_def
proof (intro allI impI)
  fix u j
  assume a: "0 \<le> u \<and> u < nodeCount abc_graph \<and> 0 \<le> j \<and> j < edgeCounts abc_graph u
    \<and> eactive (edges abc_graph u j)"
  have n: "nodeCount abc_graph = 3" by (simp add: graph_eval)
  have c: "edgeCounts abc_graph 0 = 2" "edgeCounts abc_graph 1 = 1" "edgeCounts abc_graph 2 = 0"
    by (simp_all add: graph_eval)
  have "u = 0 \<or> u = 1 \<or> u = 2" using a n by auto
  then have "(u = 0 \<and> (j = 0 \<or> j = 1)) \<or> (u = 1 \<and> j = 0)" using a c by auto
  then show "0 \<le> to_e (edges abc_graph u j) \<and> to_e (edges abc_graph u j) < nodeCount abc_graph"
    by (auto simp: graph_eval)
qed

theorem each_node_pushed_once_witness:
  "graph_wf abc_graph \<and> (0::int) \<le> 0 \<and> 0 < nodeCount abc_graph
   \<and> (0::int) \<le> 2 \<and> 2 < nodeCount abc_graph
   \<and> (\<exists>r stats calls. astar_find_path abc_graph 0 2 (Some zero_config)
          = Some (r, Some stats, calls)
        \<and> distinct (pushed_ids calls) \<and> list_all event_ok calls
        \<and> maxOpenSetSize stats \<le> nodeCount abc_graph)"
proof -
  have h: "(0::int) \<le> 0" "0 < nodeCount abc_graph" "(0::int) \<le> 2" "2 < nodeCount abc_graph"
    by (simp_all add: graph_eval)
  from each_node_pushed_once [OF abc_graph_wf h, of "Some zero_config"]
  show ?thesis using abc_graph_wf h by (simp add: list_all_iff)
qed

section \<open>Paths, predecessor chains and path reconstruction\<close>

lemma walk_append:
  "walk g u c (js @ [j]) =
     (case walk g u c js of
        None \<Rightarrow> None
      | Some (x, c') \<Rightarrow>
          if edge_ok g x j then Some (to_e (edges g x j), fadd c' (weight (edges g x j))) else None)"
  by (induction js arbitrary: u c) auto

lemma walk_cost_mono:
  assumes "nonneg_weights g" and "is_cost c" and "walk g u c js = Some (v, c')"
  shows "c \<le> c' \<and> is_cost c'"
  using assms(2,3)
proof (induction js arbitrary: u c)
  case Nil
  then show ?case by simp
next
  case (Cons j js)
  then have ok: "edge_ok g u j"
    and w: "walk g (to_e (edges g u j)) (fadd c (weight (edges g u j))) js = Some (v, c')"
    by (auto split: if_splits)
  have wt: "fle (Fin 0) (weight (edges g u j))" using assms(1) ok by (simp add: nonneg_weights_def)
  have "c \<le> fadd c (weight (edges g u j))" using Cons.prems(1) wt by (rule fadd_increasing)
  moreover have "is_cost (fadd c (weight (edges g u j)))"
    using Cons.prems(1) wt by (rule fadd_is_cost)
  ultimately show ?case using Cons.IH [OF _ w] by auto
qed

lemma edge_ok_target:
  assumes "graph_wf g" and "edge_ok g u j"
  shows "0 \<le> to_e (edges g u j)" and "to_e (edges g u j) < nodeCount g"
  using assms unfolding graph_wf_def edge_ok_def by blast+

lemma walk_in_range:
  assumes "graph_wf g" and "0 \<le> u" and "u < nodeCount g" and "walk g u c js = Some (v, c')"
  shows "0 \<le> v \<and> v < nodeCount g"
  using assms(2-)
proof (induction js arbitrary: u c)
  case Nil
  then show ?case by simp
next
  case (Cons j js)
  then have ok: "edge_ok g u j"
    and w: "walk g (to_e (edges g u j)) (fadd c (weight (edges g u j))) js = Some (v, c')"
    by (auto split: if_splits)
  show ?case using Cons.IH [OF edge_ok_target [OF assms(1) ok] w] .
qed

text \<open>
  The heart of Dijkstra's argument. If the edges out of closed nodes are relaxed and
  some \<open>m\<close> separates the closed scores from the others, then a path from the start
  costs at least the score of its end when that is closed, and at least \<open>m\<close> otherwise.
\<close>

lemma path_lower_bound:
  fixes gs :: "int \<Rightarrow> c_float" and cl :: "int \<Rightarrow> bool"
  assumes wf: "graph_wf g" and nn: "nonneg_weights g"
    and s: "0 \<le> s" "s < nodeCount g" and gs0: "gs s = Fin 0"
    and relaxed: "\<And>x j. cl x \<Longrightarrow> edge_ok g x j \<Longrightarrow>
        gs (to_e (edges g x j)) \<le> fadd (gs x) (weight (edges g x j))"
    and cost: "\<And>x. cl x \<Longrightarrow> is_cost (gs x)"
    and below: "\<And>x. cl x \<Longrightarrow> gs x \<le> m"
    and above: "\<And>v. 0 \<le> v \<Longrightarrow> v < nodeCount g \<Longrightarrow> \<not> cl v \<Longrightarrow> m \<le> gs v"
    and w: "walk g s (Fin 0) js = Some (v, c)"
  shows "(cl v \<longrightarrow> gs v \<le> c) \<and> (\<not> cl v \<longrightarrow> m \<le> c)"
  using w
proof (induction js arbitrary: v c rule: rev_induct)
  case Nil
  then have "v = s" "c = Fin 0" by simp_all
  then show ?case using gs0 above [OF s] by auto
next
  case (snoc j js)
  from snoc.prems obtain x c' where wx: "walk g s (Fin 0) js = Some (x, c')"
    and ok: "edge_ok g x j" and v: "v = to_e (edges g x j)"
    and c: "c = fadd c' (weight (edges g x j))"
    by (auto simp: walk_append split: option.splits if_splits)
  have wt: "fle (Fin 0) (weight (edges g x j))" using nn ok by (simp add: nonneg_weights_def)
  have c': "is_cost c'" using walk_cost_mono [OF nn is_cost_zero wx] by simp
  have grow: "c' \<le> c" unfolding c using c' wt by (rule fadd_increasing)
  have vr: "0 \<le> v" "v < nodeCount g" using edge_ok_target [OF wf ok] v by simp_all
  note IH = snoc.IH [OF wx]
  show ?case
  proof (cases "cl x")
    case True
    then have x: "gs x \<le> c'" using IH by simp
    have "gs v \<le> fadd (gs x) (weight (edges g x j))" using relaxed [OF True ok] v by simp
    also have "\<dots> \<le> c" unfolding c using cost [OF True] c' x wt by (rule fadd_mono)
    finally have le: "gs v \<le> c" .
    show ?thesis
    proof (cases "cl v")
      case True
      then show ?thesis using le by simp
    next
      case False
      then show ?thesis using above [OF vr False] le by simp
    qed
  next
    case False
    then have x: "m \<le> c'" using IH by simp
    show ?thesis
    proof (cases "cl v")
      case True
      then show ?thesis using below [OF True] x grow by simp
    next
      case False
      then show ?thesis using x grow by simp
    qed
  qed
qed

text \<open>Predecessor chains.\<close>

lemma chain_mono:
  assumes "chain came cl s k v" and "k \<le> k'" and "\<And>x. cl x \<Longrightarrow> cl' x"
  shows "chain came cl' s k' v"
  using assms(1,2)
proof (induction k arbitrary: v k')
  case 0
  then show ?case by (cases k') simp_all
next
  case (Suc k)
  then obtain k'' where k': "k' = Suc k''" "k \<le> k''" by (cases k') auto
  show ?case using Suc.prems(1) Suc.IH [OF _ k'(2)] assms(3) unfolding k'(1) by auto
qed

lemma chain_cong:
  assumes "\<And>x. cl x \<Longrightarrow> x \<noteq> s \<Longrightarrow> came' x = came x"
  shows "chain came' cl s k v = chain came cl s k v"
  using assms by (induction k arbitrary: v) auto

lemma count_path_chain:
  assumes "chain came cl s k v" and "\<And>x. cl x \<Longrightarrow> x \<noteq> - 1" and "len + int k < n"
  shows "fst (count_path came s n v len) = s"
  using assms(1,3)
proof (induction k arbitrary: v len)
  case 0
  then show ?case by (subst count_path.simps) simp
next
  case (Suc k)
  show ?case
  proof (cases "v = s")
    case True
    then show ?thesis by (subst count_path.simps) simp
  next
    case False
    then have cv: "cl v" and ch: "chain came cl s k (came v)" using Suc.prems(1) by auto
    have "fst (count_path came s n (came v) (len + 1)) = s"
      using Suc.prems(2) by (intro Suc.IH [OF ch]) simp
    then show ?thesis using False assms(2) [OF cv] Suc.prems(2)
      by (subst count_path.simps) simp
  qed
qed

lemma reconstruct_path_found:
  assumes "fst (count_path came s n t 0) = s"
  shows "found (reconstruct_path came gs s t n)"
    and "totalCost (reconstruct_path came gs s t n) = gs t"
  using assms by (auto simp: reconstruct_path_def Let_def split: prod.splits)

section \<open>The search with the zero heuristic\<close>

lemma zero_heuristic:
  "heuristic cfg = HEURISTIC_ZERO \<Longrightarrow> heuristicWeight cfg = Fin hw \<Longrightarrow>
     fmul (astar_heuristic (Some a) (Some b) (heuristic cfg)) (heuristicWeight cfg) = Fin 0"
  by (simp add: astar_heuristic_def Let_def round_f32_int)

lemma heap_scored_push:
  assumes hs: "heap_scored st" and room: "pq_size (openSet st) < pq_capacity (openSet st)"
    and new: "v \<notin> set (pq_ids (openSet st))" and num: "f \<noteq> NaN"
    and q: "openSet st' = snd (pq_push (openSet st) v f)"
    and gs: "gScore st' = (gScore st)(v := f)"
  shows "heap_scored st'"
  unfolding heap_scored_def
proof (intro conjI ballI)
  show "heap_inv (openSet st')"
    using hs num pq_push_heap unfolding q heap_scored_def by blast
  fix e assume "e \<in> set (pq_list (openSet st'))"
  then have "e \<in># add_mset \<lparr>pq_nodeId = v, pq_fScore = f\<rparr> (mset (pq_list (openSet st)))"
    using pq_push_content(4) [OF room, of v f] unfolding q by (metis set_mset_mset)
  then consider "e = \<lparr>pq_nodeId = v, pq_fScore = f\<rparr>" | "e \<in> set (pq_list (openSet st))"
    by auto
  then show "pq_fScore e = gScore st' (pq_nodeId e)"
  proof cases
    case 1
    then show ?thesis by (simp add: gs)
  next
    case 2
    then have "pq_nodeId e \<in> set (pq_ids (openSet st))" by (simp add: pq_ids_def)
    then have "pq_nodeId e \<noteq> v" using new by auto
    then show ?thesis using hs 2 by (simp add: heap_scored_def gs)
  qed
qed

lemma heap_scored_decrease:
  assumes hs: "heap_scored st" and dist: "distinct (pq_ids (openSet st))"
    and old: "v \<in> set (pq_ids (openSet st))" and less: "flt f (gScore st v)"
    and q: "openSet st' = pq_decrease_priority (openSet st) v f"
    and gs: "gScore st' = (gScore st)(v := f)"
  shows "heap_scored st'"
  unfolding heap_scored_def
proof (intro conjI ballI)
  let ?pq = "openSet st"
  have num: "f \<noteq> NaN" using less by (simp add: flt_iff)
  show "heap_inv (openSet st')"
    using hs num unfolding q heap_scored_def pq_decrease_priority_def
    by (simp add: decrease_from_heap)
  fix e assume e: "e \<in> set (pq_list (openSet st'))"
  from pq_decrease_content [OF old, of f] obtain k where
    k: "k < pq_size ?pq" "pq_nodeId (pq_nodes ?pq k) = v"
    and c: "if flt f (pq_fScore (pq_nodes ?pq k))
               then pq_size (pq_decrease_priority ?pq v f) = pq_size ?pq
                    \<and> pq_capacity (pq_decrease_priority ?pq v f) = pq_capacity ?pq
                    \<and> mset (pq_list (pq_decrease_priority ?pq v f))
                        = mset ((pq_list ?pq)[k := \<lparr>pq_nodeId = v, pq_fScore = f\<rparr>])
               else pq_decrease_priority ?pq v f = ?pq" by blast
  have kl: "k < length (pq_list ?pq)" "pq_list ?pq ! k = pq_nodes ?pq k"
    using k(1) by (simp_all add: pq_list_def)
  have "pq_fScore (pq_nodes ?pq k) = gScore st v"
    using hs kl k(2) unfolding heap_scored_def by (metis nth_mem)
  then have "mset (pq_list (openSet st')) = mset ((pq_list ?pq)[k := \<lparr>pq_nodeId = v, pq_fScore = f\<rparr>])"
    using c less by (simp add: q)
  then have "e \<in> set ((pq_list ?pq)[k := \<lparr>pq_nodeId = v, pq_fScore = f\<rparr>])"
    using e by (metis set_mset_mset)
  then obtain l where l: "l < length (pq_list ?pq)"
    "e = (pq_list ?pq)[k := \<lparr>pq_nodeId = v, pq_fScore = f\<rparr>] ! l"
    by (metis in_set_conv_nth length_list_update)
  show "pq_fScore e = gScore st' (pq_nodeId e)"
  proof (cases "l = k")
    case True
    then show ?thesis using l kl by (simp add: gs)
  next
    case False
    then have el: "e = pq_list ?pq ! l" using l by simp
    have "l < length (pq_ids ?pq)" "k < length (pq_ids ?pq)"
      using l(1) kl(1) by (simp_all add: pq_ids_def)
    then have "pq_ids ?pq ! l \<noteq> pq_ids ?pq ! k"
      using dist False by (simp add: nth_eq_iff_index_eq)
    then have "pq_nodeId e \<noteq> v" using el l(1) kl k(2) by (simp add: pq_ids_def)
    moreover have "pq_fScore e = gScore st (pq_nodeId e)"
      using hs el l(1) unfolding heap_scored_def by (metis nth_mem)
    ultimately show ?thesis by (simp add: gs)
  qed
qed

lemma astar_init_dijk:
  assumes s: "0 \<le> s" "s < nodeCount g" and z: "heuristic cfg = HEURISTIC_ZERO"
    and hw: "heuristicWeight cfg = Fin hw"
  shows "astar_dijk g s t (astar_init g cfg s t)"
proof -
  let ?st = "astar_init g cfg s t"
  note f = astar_init_fields [OF s, of cfg t]
  have q: "openSet ?st = \<lparr>pq_nodes = (\<lambda>_. \<lparr>pq_nodeId = 0, pq_fScore = Fin 0\<rparr>)
              (0 := \<lparr>pq_nodeId = s, pq_fScore = Fin 0\<rparr>), pq_size = 1,
              pq_capacity = nat (nodeCount g)\<rparr>"
    using f(1) zero_heuristic [OF z hw] by simp
  have hs: "heap_scored ?st"
    by (simp add: heap_scored_def q heap_inv_def heap_upto_def keys_ok_def pq_list_def f(2))
  have ds: "dijk_scores g s t ?st"
    unfolding dijk_scores_def
    using s FLT_MAX_pos is_cost_zero is_cost_FLT_MAX
    by (auto simp: f intro: exI [of _ "[]"])
  show ?thesis
    unfolding astar_dijk_def using astar_init_struct [OF s] hs ds by simp
qed

lemma struct_room:
  assumes inv: "astar_struct g st" and v: "0 \<le> v" "v < nodeCount g" and o: "\<not> inOpenSet st v"
  shows "pq_size (openSet st) < pq_capacity (openSet st)"
    and "v \<notin> set (pq_ids (openSet st))"
proof -
  from inv have cap: "pq_capacity (openSet st) = nat (nodeCount g)"
    and dist: "distinct (pq_ids (openSet st))"
    and op: "\<And>w. inOpenSet st w \<longleftrightarrow> w \<in> set (pq_ids (openSet st))"
    and rng: "\<And>w. inOpenSet st w \<or> inClosedSet st w \<Longrightarrow> 0 \<le> w \<and> w < nodeCount g"
    unfolding astar_struct_def by blast+
  show notin: "v \<notin> set (pq_ids (openSet st))" using o op by simp
  have "int (length (pq_ids (openSet st))) < nodeCount g"
    using dist v notin rng op by (intro ids_room [where w = v]) auto
  then show "pq_size (openSet st) < pq_capacity (openSet st)"
    using cap by (simp add: pq_ids_size)
qed

lemma relax_scoresD:
  assumes "relax_scores g s t u j st"
  shows "inClosedSet st u" and "\<not> inClosedSet st t"
    and "gScore st s = Fin 0" and "inOpenSet st s \<or> inClosedSet st s"
    and "\<And>w. 0 \<le> w \<Longrightarrow> w < nodeCount g \<Longrightarrow>
        is_cost (gScore st w) \<and> gScore st w \<le> Fin FLT_MAX"
    and "\<And>w. 0 \<le> w \<Longrightarrow> w < nodeCount g \<Longrightarrow>
        (gScore st w < Fin FLT_MAX \<longleftrightarrow> inOpenSet st w \<or> inClosedSet st w)"
    and "\<And>w. inOpenSet st w \<or> inClosedSet st w \<Longrightarrow>
        \<exists>js. walk g s (Fin 0) js = Some (w, gScore st w)"
    and "\<And>x k. inClosedSet st x \<Longrightarrow> edge_ok g x k \<Longrightarrow> (x = u \<longrightarrow> k < j) \<Longrightarrow>
        gScore st (to_e (edges g x k)) \<le> fadd (gScore st x) (weight (edges g x k))"
    and "\<And>x. inClosedSet st x \<Longrightarrow> gScore st x \<le> gScore st u"
    and "\<And>w. 0 \<le> w \<Longrightarrow> w < nodeCount g \<Longrightarrow> \<not> inClosedSet st w \<Longrightarrow>
        gScore st u \<le> gScore st w"
    and "\<And>w. inClosedSet st w \<Longrightarrow>
        chain (cameFrom st) (inClosedSet st) s (card {x. inClosedSet st x} - 1) w"
    and "\<And>w. inOpenSet st w \<Longrightarrow> w \<noteq> s \<Longrightarrow> inClosedSet st (cameFrom st w)"
  using assms unfolding relax_scores_def by (elim conjE; blast)+

lemma relax_scores_skip:
  assumes inv: "relax_scores g s t u j st" and wf: "graph_wf g" and nn: "nonneg_weights g"
    and no: "\<not> (eactive (edges g u j) \<and> active (nodes g (to_e (edges g u j)))
      \<and> \<not> inClosedSet st (to_e (edges g u j))
      \<and> flt (fadd (gScore st u) (weight (edges g u j))) (gScore st (to_e (edges g u j))))"
  shows "relax_scores g s t u (j + 1) st"
proof -
  note d = relax_scoresD [OF inv]
  note rel = d(8) and below = d(9)
  have "gScore st (to_e (edges g x k)) \<le> fadd (gScore st x) (weight (edges g x k))"
    if x: "inClosedSet st x" and ok: "edge_ok g x k" and lt: "x = u \<longrightarrow> k < j + 1" for x k
  proof (cases "x = u \<and> k = j")
    case False
    then show ?thesis using rel [OF x ok] lt by auto
  next
    case True
    then have oku: "edge_ok g u j" using ok by simp
    have w: "fle (Fin 0) (weight (edges g u j))" using nn oku by (simp add: nonneg_weights_def)
    have ur: "0 \<le> u" "u < nodeCount g" using oku by (simp_all add: edge_ok_def)
    have cu: "is_cost (gScore st u)" using d(5) [OF ur] by simp
    have grow: "gScore st u \<le> fadd (gScore st u) (weight (edges g u j))"
      using cu w by (rule fadd_increasing)
    have act: "eactive (edges g u j)" "active (nodes g (to_e (edges g u j)))"
      using oku by (simp_all add: edge_ok_def)
    show ?thesis
    proof (cases "inClosedSet st (to_e (edges g u j))")
      case cl: True
      then show ?thesis using below [OF cl] grow True by simp
    next
      case False
      have "is_cost (gScore st (to_e (edges g u j)))"
        using d(5) [OF edge_ok_target [OF wf oku]] by simp
      then have "gScore st (to_e (edges g u j)) \<noteq> NaN" by (rule is_cost_number)
      moreover have "fadd (gScore st u) (weight (edges g u j)) \<noteq> NaN"
        using fadd_is_cost [OF cu w] by (rule is_cost_number)
      ultimately show ?thesis using no act False True by (simp add: flt_iff)
    qed
  qed
  then have new: "\<forall>x k. inClosedSet st x \<and> edge_ok g x k \<and> (x = u \<longrightarrow> k < j + 1) \<longrightarrow>
      gScore st (to_e (edges g x k)) \<le> fadd (gScore st x) (weight (edges g x k))"
    by blast
  show ?thesis
    unfolding relax_scores_def
    using d(1-7) new d(9-12) by (intro conjI; blast)
qed

lemma relax_scores_update:
  assumes wf: "graph_wf g" and nn: "nonneg_weights g"
    and inv: "relax_scores g s t u j st"
    and disj: "\<And>w. inOpenSet st w \<Longrightarrow> \<not> inClosedSet st w"
    and ok: "edge_ok g u j" and v: "v = to_e (edges g u j)"
    and ncl: "\<not> inClosedSet st v"
    and tg: "tg = fadd (gScore st u) (weight (edges g u j))" and less: "flt tg (gScore st v)"
    and f: "gScore st' = (gScore st)(v := tg)" "cameFrom st' = (cameFrom st)(v := u)"
      "inClosedSet st' = inClosedSet st" "inOpenSet st' = (inOpenSet st)(v := True)"
  shows "relax_scores g s t u (j + 1) st'"
proof -
  note d = relax_scoresD [OF inv]
  note clu = d(1) and nclt = d(2) and gs0 = d(3) and s_disc = d(4) and le_max = d(5)
    and disc = d(6) and path = d(7) and rel = d(8) and below = d(9) and above = d(10)
    and ch = d(11) and pred = d(12)
  have vr: "0 \<le> v" "v < nodeCount g" using edge_ok_target [OF wf ok] v by simp_all
  have ur: "0 \<le> u" "u < nodeCount g" using ok by (simp_all add: edge_ok_def)
  have w: "fle (Fin 0) (weight (edges g u j))" using nn ok by (simp add: nonneg_weights_def)
  have cu: "is_cost (gScore st u)" using le_max [OF ur] by simp
  have ctg: "is_cost tg" unfolding tg using cu w by (rule fadd_is_cost)
  have grow: "gScore st u \<le> tg" unfolding tg using cu w by (rule fadd_increasing)
  have lt: "tg < gScore st v" using less by (simp add: flt_iff)
  have tmax: "tg < Fin FLT_MAX" using lt le_max [OF vr] by auto
  obtain js where js: "walk g s (Fin 0) js = Some (u, gScore st u)" using path clu by blast
  have vs: "v \<noteq> s" using lt gs0 is_cost_nonneg [OF ctg] by auto
  have vu: "v \<noteq> u" using ncl clu by auto
  have unch: "\<And>x. inClosedSet st x \<Longrightarrow> gScore st' x = gScore st x"
    using ncl by (auto simp: f(1))
  show ?thesis
    unfolding relax_scores_def
  proof (intro conjI allI impI)
    show "inClosedSet st' u" "\<not> inClosedSet st' t" using clu nclt by (simp_all add: f(3))
    show "gScore st' s = Fin 0" using gs0 vs by (simp add: f(1))
    show "inOpenSet st' s \<or> inClosedSet st' s" using s_disc by (auto simp: f(3,4))
  next
    fix w' assume r: "0 \<le> w' \<and> w' < nodeCount g"
    show "is_cost (gScore st' w')" using le_max [of w'] ctg r by (auto simp: f(1))
    show "gScore st' w' \<le> Fin FLT_MAX" using le_max [of w'] tmax r by (auto simp: f(1))
    show "gScore st' w' < Fin FLT_MAX \<longleftrightarrow> inOpenSet st' w' \<or> inClosedSet st' w'"
      using disc [of w'] tmax r by (auto simp: f(1,3,4))
  next
    fix w' assume d: "inOpenSet st' w' \<or> inClosedSet st' w'"
    show "\<exists>js. walk g s (Fin 0) js = Some (w', gScore st' w')"
    proof (cases "w' = v")
      case True
      have "walk g s (Fin 0) (js @ [j]) = Some (v, tg)"
        using js ok v tg by (simp add: walk_append)
      then show ?thesis using True by (auto simp: f(1))
    next
      case False
      then show ?thesis using path [of w'] d by (auto simp: f(1,3,4))
    qed
  next
    fix x k
    assume a: "inClosedSet st' x \<and> edge_ok g x k \<and> (x = u \<longrightarrow> k < j + 1)"
    then have x: "inClosedSet st x" and okx: "edge_ok g x k" by (simp_all add: f(3))
    have gx: "gScore st' x = gScore st x" using unch [OF x] .
    show "gScore st' (to_e (edges g x k)) \<le> fadd (gScore st' x) (weight (edges g x k))"
    proof (cases "x = u \<and> k = j")
      case True
      then show ?thesis using v tg gx by (simp add: f(1))
    next
      case False
      then have old: "gScore st (to_e (edges g x k)) \<le> fadd (gScore st x) (weight (edges g x k))"
        using rel [OF x okx] a by auto
      have "gScore st' (to_e (edges g x k)) \<le> gScore st (to_e (edges g x k))"
        using lt by (auto simp: f(1))
      then show ?thesis using old gx by simp
    qed
  next
    fix x assume "inClosedSet st' x"
    then have x: "inClosedSet st x" by (simp add: f(3))
    show "gScore st' x \<le> gScore st' u" using below [OF x] unch [OF x] unch [OF clu] by simp
  next
    fix w' assume r: "0 \<le> w' \<and> w' < nodeCount g \<and> \<not> inClosedSet st' w'"
    show "gScore st' u \<le> gScore st' w'"
    proof (cases "w' = v")
      case True
      then show ?thesis using grow unch [OF clu] by (simp add: f(1))
    next
      case False
      then show ?thesis using above [of w'] r unch [OF clu] by (simp add: f(1,3))
    qed
  next
    fix w' assume "inClosedSet st' w'"
    then have x: "inClosedSet st w'" by (simp add: f(3))
    have "chain (cameFrom st') (inClosedSet st) s (card {x. inClosedSet st x} - 1) w'
        = chain (cameFrom st) (inClosedSet st) s (card {x. inClosedSet st x} - 1) w'"
      using ncl by (intro chain_cong) (auto simp: f(2))
    then show "chain (cameFrom st') (inClosedSet st') s (card {x. inClosedSet st' x} - 1) w'"
      using ch [OF x] by (simp add: f(3))
  next
    fix w' assume o: "inOpenSet st' w' \<and> w' \<noteq> s"
    show "inClosedSet st' (cameFrom st' w')"
    proof (cases "w' = v")
      case True
      then show ?thesis using clu by (simp add: f(2,3))
    next
      case False
      then show ?thesis using pred [of w'] o by (simp add: f(2,3,4))
    qed
  qed
qed

lemma dijk_scoresD:
  assumes "dijk_scores g s t st"
  shows "\<not> inClosedSet st t"
    and "gScore st s = Fin 0" and "inOpenSet st s \<or> inClosedSet st s"
    and "\<And>w. 0 \<le> w \<Longrightarrow> w < nodeCount g \<Longrightarrow>
        is_cost (gScore st w) \<and> gScore st w \<le> Fin FLT_MAX"
    and "\<And>w. 0 \<le> w \<Longrightarrow> w < nodeCount g \<Longrightarrow>
        (gScore st w < Fin FLT_MAX \<longleftrightarrow> inOpenSet st w \<or> inClosedSet st w)"
    and "\<And>w. inOpenSet st w \<or> inClosedSet st w \<Longrightarrow>
        \<exists>js. walk g s (Fin 0) js = Some (w, gScore st w)"
    and "\<And>x k. inClosedSet st x \<Longrightarrow> edge_ok g x k \<Longrightarrow>
        gScore st (to_e (edges g x k)) \<le> fadd (gScore st x) (weight (edges g x k))"
    and "\<And>x w. inClosedSet st x \<Longrightarrow> 0 \<le> w \<Longrightarrow> w < nodeCount g \<Longrightarrow> \<not> inClosedSet st w \<Longrightarrow>
        gScore st x \<le> gScore st w"
    and "\<And>w. inClosedSet st w \<Longrightarrow>
        chain (cameFrom st) (inClosedSet st) s (card {x. inClosedSet st x} - 1) w"
    and "\<And>w. inOpenSet st w \<Longrightarrow> w \<noteq> s \<Longrightarrow> inClosedSet st (cameFrom st w)"
  using assms unfolding dijk_scores_def by (elim conjE; blast)+

lemma astar_structD:
  assumes "astar_struct g st"
  shows "pq_capacity (openSet st) = nat (nodeCount g)"
    and "distinct (pq_ids (openSet st))"
    and "\<And>w. inOpenSet st w \<longleftrightarrow> w \<in> set (pq_ids (openSet st))"
    and "\<And>w. inOpenSet st w \<Longrightarrow> \<not> inClosedSet st w"
    and "\<And>w. inOpenSet st w \<or> inClosedSet st w \<Longrightarrow> 0 \<le> w \<and> w < nodeCount g"
  using assms unfolding astar_struct_def by (elim conjE; blast)+

lemma relax_edge_dijk:
  assumes inv: "astar_struct g st" and hs: "heap_scored st"
    and rs: "relax_scores g s t u j st"
    and wf: "graph_wf g" and nn: "nonneg_weights g" and z: "heuristic cfg = HEURISTIC_ZERO"
    and hw: "heuristicWeight cfg = Fin hw"
    and u: "0 \<le> u" "u < nodeCount g" and j: "0 \<le> j" "j < edgeCounts g u"
  shows "astar_struct g (relax_edge g cfg t u j st)
         \<and> heap_scored (relax_edge g cfg t u j st)
         \<and> relax_scores g s t u (j + 1) (relax_edge g cfg t u j st)"
proof -
  define v where "v = to_e (edges g u j)"
  define tg where "tg = fadd (gScore st u) (weight (edges g u j))"
  define h where "h = fmul (astar_heuristic (Some (nodes g v)) (Some (nodes g t)) (heuristic cfg))
                    (heuristicWeight cfg)"
  define st' where "st' = relax_edge g cfg t u j st"
  have h0: "h = Fin 0" unfolding h_def using z hw by (rule zero_heuristic)
  note sd = astar_structD [OF inv]
  have str: "astar_struct g st'"
    using relax_edge_struct [OF inv wf u j, of cfg t] by (simp add: st'_def)
  show ?thesis
  proof (cases "eactive (edges g u j) \<and> active (nodes g v) \<and> \<not> inClosedSet st v
      \<and> flt tg (gScore st v)")
    case False
    then have no: "\<not> (eactive (edges g u j) \<and> active (nodes g (to_e (edges g u j)))
      \<and> \<not> inClosedSet st (to_e (edges g u j))
      \<and> flt (fadd (gScore st u) (weight (edges g u j))) (gScore st (to_e (edges g u j))))"
      by (simp add: v_def tg_def)
    then have "relax_edge g cfg t u j st = st" by (rule relax_edge_skip)
    then show ?thesis using inv hs relax_scores_skip [OF rs wf nn no] by simp
  next
    case True
    then have c: "eactive (edges g u j)" "active (nodes g v)" "\<not> inClosedSet st v"
      "flt tg (gScore st v)" by auto
    have ok: "edge_ok g u j" using u j c(1,2) by (simp add: edge_ok_def v_def)
    have vr: "0 \<le> v" "v < nodeCount g" using edge_ok_target [OF wf ok] by (simp_all add: v_def)
    have w: "fle (Fin 0) (weight (edges g u j))" using nn ok by (simp add: nonneg_weights_def)
    have "is_cost (gScore st u)" using relax_scoresD(5) [OF rs u] by simp
    then have ctg: "is_cost tg" unfolding tg_def using w by (rule fadd_is_cost)
    have key: "fadd tg h = tg" unfolding h0 using ctg by (rule fadd_zero)
    have num: "tg \<noteq> NaN" using ctg by (rule is_cost_number)
    show ?thesis
    proof (cases "inOpenSet st v")
      case False
      note f = relax_edge_push [OF v_def tg_def h_def c False st'_def]
      have "heap_scored st'"
        using struct_room [OF inv vr False] f(1,6) key num
        by (intro heap_scored_push [OF hs, where v = v and f = tg]) simp_all
      moreover have "relax_scores g s t u (j + 1) st'"
        using f(1,3,4,5)
        by (intro relax_scores_update [OF wf nn rs sd(4) ok v_def c(3) tg_def c(4)]) simp_all
      ultimately show ?thesis using str by (simp add: st'_def)
    next
      case True
      note f = relax_edge_decrease [OF v_def tg_def h_def c True st'_def]
      have isin: "v \<in> set (pq_ids (openSet st))" using True sd(3) by simp
      have "heap_scored st'"
        using f(1,6) key
        by (intro heap_scored_decrease [OF hs sd(2) isin c(4)]) simp_all
      moreover have "(inOpenSet st)(v := True) = inOpenSet st"
        using True by (intro ext) simp
      then have "inOpenSet st' = (inOpenSet st)(v := True)"
        using f(5) by simp
      then have "relax_scores g s t u (j + 1) st'"
        using f(1,3,4)
        by (intro relax_scores_update [OF wf nn rs sd(4) ok v_def c(3) tg_def c(4)]) simp_all
      ultimately show ?thesis using str by (simp add: st'_def)
    qed
  qed
qed

lemma relax_scores_done:
  assumes rs: "relax_scores g s t u m st" and m: "edgeCounts g u \<le> m"
  shows "dijk_scores g s t st"
proof -
  note d = relax_scoresD [OF rs]
  have rel: "\<forall>x k. inClosedSet st x \<and> edge_ok g x k \<longrightarrow>
      gScore st (to_e (edges g x k)) \<le> fadd (gScore st x) (weight (edges g x k))"
  proof (intro allI impI)
    fix x k assume a: "inClosedSet st x \<and> edge_ok g x k"
    then have "x = u \<longrightarrow> k < m" using m by (auto simp: edge_ok_def)
    then show "gScore st (to_e (edges g x k)) \<le> fadd (gScore st x) (weight (edges g x k))"
      using d(8) [of x k] a by simp
  qed
  have sep: "\<forall>x v. inClosedSet st x \<and> 0 \<le> v \<and> v < nodeCount g \<and> \<not> inClosedSet st v \<longrightarrow>
      gScore st x \<le> gScore st v"
  proof (intro allI impI)
    fix x v assume a: "inClosedSet st x \<and> 0 \<le> v \<and> v < nodeCount g \<and> \<not> inClosedSet st v"
    have "gScore st x \<le> gScore st u" using d(9) a by simp
    also have "\<dots> \<le> gScore st v" using d(10) a by simp
    finally show "gScore st x \<le> gScore st v" .
  qed
  show ?thesis
    unfolding dijk_scores_def
    using d(2-7) rel sep d(11,12) by (intro conjI; blast)
qed

lemma relax_loop_dijk:
  assumes inv: "astar_struct g st" and hs: "heap_scored st"
    and rs: "relax_scores g s t u 0 st"
    and wf: "graph_wf g" and nn: "nonneg_weights g" and z: "heuristic cfg = HEURISTIC_ZERO"
    and hw: "heuristicWeight cfg = Fin hw"
    and u: "0 \<le> u" "u < nodeCount g"
  shows "astar_dijk g s t (for_loop 0 (edgeCounts g u) (relax_edge g cfg t u) st)"
proof (cases "0 \<le> edgeCounts g u")
  case False
  then have "dijk_scores g s t st" using rs by (intro relax_scores_done [OF rs]) simp
  then show ?thesis using False inv hs by (simp add: for_loop_skip astar_dijk_def)
next
  case True
  let ?P = "\<lambda>j st'. astar_struct g st' \<and> heap_scored st' \<and> relax_scores g s t u j st'"
  have "?P (edgeCounts g u) (for_loop 0 (edgeCounts g u) (relax_edge g cfg t u) st)"
  proof (rule for_loop_rule [where P = ?P])
    show "?P 0 st" using inv hs rs by simp
    show "0 \<le> edgeCounts g u" by (rule True)
  next
    fix j st'
    assume j: "0 \<le> j" "j < edgeCounts g u" and p: "?P j st'"
    show "?P (j + 1) (relax_edge g cfg t u j st')"
      using p by (intro relax_edge_dijk [OF _ _ _ wf nn z hw u j]) simp_all
  qed
  then show ?thesis
    using relax_scores_done [of g s t u "edgeCounts g u"] by (simp add: astar_dijk_def)
qed

lemma closed_finite:
  assumes "astar_struct g st"
  shows "finite {x. inClosedSet st x}"
proof (rule finite_subset)
  show "{x. inClosedSet st x} \<subseteq> {0..<nodeCount g}"
    using astar_structD(5) [OF assms] by auto
qed simp

text \<open>The node at the root of the heap has the least score of all nodes not closed.\<close>

lemma root_least_unclosed:
  assumes inv: "astar_struct g st" and hs: "heap_scored st" and ds: "dijk_scores g s t st"
    and ne: "\<not> pq_empty (openSet st)" and u: "u = pq_nodeId (pq_nodes (openSet st) 0)"
    and v: "0 \<le> v" "v < nodeCount g" "\<not> inClosedSet st v"
  shows "gScore st u \<le> gScore st v"
proof -
  let ?pq = "openSet st"
  note sd = astar_structD [OF inv] and dd = dijk_scoresD [OF ds]
  have pos: "0 < pq_size ?pq" using ne by (simp add: pq_empty_def)
  then have root: "pq_nodes ?pq 0 \<in> set (pq_list ?pq)" by (auto simp: pq_list_def)
  then have fr: "pq_fScore (pq_nodes ?pq 0) = gScore st u"
    using hs u by (simp add: heap_scored_def)
  have uo: "inOpenSet st u" using root u sd(3) by (auto simp: pq_ids_def)
  show ?thesis
  proof (cases "inOpenSet st v")
    case True
    then obtain e where e: "e \<in> set (pq_list ?pq)" "pq_nodeId e = v"
      using sd(3) by (auto simp: pq_ids_def)
    have "pq_fScore (pq_nodes ?pq 0) \<le> pq_fScore e"
      using hs e(1) by (intro heap_root_min_list) (simp_all add: heap_scored_def)
    moreover have "pq_fScore e = gScore st v" using hs e by (simp add: heap_scored_def)
    ultimately show ?thesis using fr by simp
  next
    case False
    then have "\<not> gScore st v < Fin FLT_MAX" using dd(5) [OF v(1,2)] v(3) by simp
    moreover have "gScore st u \<le> Fin FLT_MAX" using dd(4) sd(5) uo by blast
    ultimately show ?thesis by auto
  qed
qed

lemma chain_start: "chain came cl s k s"
  by (cases k) simp_all

lemma close_node_dijk:
  assumes inv: "astar_struct g st" and hs: "heap_scored st" and ds: "dijk_scores g s t st"
    and ne: "\<not> pq_empty (openSet st)" and u: "u = pq_nodeId (pq_nodes (openSet st) 0)"
    and uo: "inOpenSet st u" and ut: "u \<noteq> t"
    and pop: "pq_pop (openSet st) = Some (u, f, pq')"
    and ms: "mset (pq_list (openSet st)) = add_mset (pq_nodes (openSet st) 0) (mset (pq_list pq'))"
    and st2: "openSet st2 = pq'" "gScore st2 = gScore st" "cameFrom st2 = cameFrom st"
      "inOpenSet st2 = (inOpenSet st)(u := False)" "inClosedSet st2 = (inClosedSet st)(u := True)"
  shows "heap_scored st2 \<and> relax_scores g s t u 0 st2"
proof -
  let ?pq = "openSet st"
  note sd = astar_structD [OF inv] and dd = dijk_scoresD [OF ds]
  have ur: "0 \<le> u" "u < nodeCount g" and ncl: "\<not> inClosedSet st u"
    using sd(4,5) uo by blast+
  have sub: "set (pq_list pq') \<subseteq> set (pq_list ?pq)"
    using ms by (metis set_mset_add_mset_insert set_mset_mset subset_insertI)
  have hs2: "heap_scored st2"
    unfolding heap_scored_def st2
    using hs pq_pop_heap [OF _ pop] sub by (auto simp: heap_scored_def)
  let ?C = "{x. inClosedSet st x}"
  have fin: "finite ?C" using closed_finite [OF inv] .
  have C2: "{x. inClosedSet st2 x} = insert u ?C" by (auto simp: st2)
  have card2: "card {x. inClosedSet st2 x} - 1 = card ?C"
    using fin ncl unfolding C2 by simp
  have mono: "chain (cameFrom st) (inClosedSet st2) s k' w"
    if "chain (cameFrom st) (inClosedSet st) s k w" "k \<le> k'" for k k' w
    using that by (rule chain_mono) (simp add: st2)
  have ch: "chain (cameFrom st2) (inClosedSet st2) s (card {x. inClosedSet st2 x} - 1) w"
    if w: "inClosedSet st2 w" for w
  proof (cases "w = u")
    case False
    then have "inClosedSet st w" using w by (simp add: st2)
    from mono [OF dd(9) [OF this], of "card ?C"] show ?thesis
      unfolding card2 st2(3) by simp
  next
    case True
    show ?thesis
    proof (cases "u = s")
      case True
      then show ?thesis using \<open>w = u\<close> by (simp add: chain_start)
    next
      case False
      have px: "inClosedSet st (cameFrom st u)" using dd(10) [OF uo False] .
      then have "card ?C \<noteq> 0" using fin by auto
      then obtain k where k: "card ?C = Suc k" by (cases "card ?C") auto
      have "chain (cameFrom st) (inClosedSet st2) s k (cameFrom st u)"
        using mono [OF dd(9) [OF px], of k] k by simp
      then have "chain (cameFrom st) (inClosedSet st2) s (Suc k) u"
        by (simp add: st2)
      then show ?thesis unfolding card2 st2(3) k using \<open>w = u\<close> by simp
    qed
  qed
  have rs: "relax_scores g s t u 0 st2"
    unfolding relax_scores_def
  proof (intro conjI allI impI)
    show "inClosedSet st2 u" "\<not> inClosedSet st2 t" using dd(1) ut by (simp_all add: st2)
    show "gScore st2 s = Fin 0" using dd(2) by (simp add: st2)
    show "inOpenSet st2 s \<or> inClosedSet st2 s" using dd(3) by (auto simp: st2)
  next
    fix w assume r: "0 \<le> w \<and> w < nodeCount g"
    show "is_cost (gScore st2 w)" using dd(4) r by (simp add: st2)
    show "gScore st2 w \<le> Fin FLT_MAX" using dd(4) r by (simp add: st2)
    show "gScore st2 w < Fin FLT_MAX \<longleftrightarrow> inOpenSet st2 w \<or> inClosedSet st2 w"
      using dd(5) [of w] r uo by (auto simp: st2)
  next
    fix w assume "inOpenSet st2 w \<or> inClosedSet st2 w"
    then have "inOpenSet st w \<or> inClosedSet st w" using uo by (auto simp: st2 split: if_splits)
    then show "\<exists>js. walk g s (Fin 0) js = Some (w, gScore st2 w)" using dd(6) by (simp add: st2)
  next
    fix x k assume a: "inClosedSet st2 x \<and> edge_ok g x k \<and> (x = u \<longrightarrow> k < 0)"
    then have "x \<noteq> u" by (auto simp: edge_ok_def)
    then have "inClosedSet st x" using a by (simp add: st2)
    then show "gScore st2 (to_e (edges g x k)) \<le> fadd (gScore st2 x) (weight (edges g x k))"
      using dd(7) a by (simp add: st2)
  next
    fix x assume "inClosedSet st2 x"
    then have "x = u \<or> inClosedSet st x" by (auto simp: st2 split: if_splits)
    then show "gScore st2 x \<le> gScore st2 u"
      using dd(8) [OF _ ur ncl] by (auto simp: st2)
  next
    fix w assume r: "0 \<le> w \<and> w < nodeCount g \<and> \<not> inClosedSet st2 w"
    then have "\<not> inClosedSet st w" by (auto simp: st2 split: if_splits)
    then show "gScore st2 u \<le> gScore st2 w"
      using root_least_unclosed [OF inv hs ds ne u] r by (simp add: st2)
  next
    fix w assume "inClosedSet st2 w"
    then show "chain (cameFrom st2) (inClosedSet st2) s (card {x. inClosedSet st2 x} - 1) w"
      by (rule ch)
  next
    fix w assume "inOpenSet st2 w \<and> w \<noteq> s"
    then have "inOpenSet st w" "w \<noteq> s" by (auto simp: st2 split: if_splits)
    then show "inClosedSet st2 (cameFrom st2 w)" using dd(10) by (simp add: st2)
  qed
  show ?thesis using hs2 rs by simp
qed

lemma astar_iter_dijk:
  assumes inv: "astar_dijk g s t st" and wf: "graph_wf g" and nn: "nonneg_weights g"
    and z: "heuristic cfg = HEURISTIC_ZERO" and hw: "heuristicWeight cfg = Fin hw"
    and ne: "\<not> pq_empty (openSet st)"
    and it: "astar_iter g cfg s t st = Inr st'"
  shows "astar_dijk g s t st' \<and> unclosed g st' < unclosed g st"
proof -
  from inv have str: "astar_struct g st" and hs: "heap_scored st" and ds: "dijk_scores g s t st"
    by (simp_all add: astar_dijk_def)
  from astar_iter_anatomy [OF str ne, of t cfg s] obtain u pq' where
    a: "u = pq_nodeId (pq_nodes (openSet st) 0)"
    "inOpenSet st u" "\<not> inClosedSet st u" "0 \<le> u" "u < nodeCount g"
    "pq_size pq' = pq_size (openSet st) - 1" "pq_capacity pq' = pq_capacity (openSet st)"
    "mset (pq_list (openSet st)) = add_mset (pq_nodes (openSet st) 0) (mset (pq_list pq'))"
    and g1: "u = t \<Longrightarrow> astar_iter g cfg s t st =
        Inl (reconstruct_path (cameFrom st) (gScore st) s t (nodeCount g),
             st\<lparr>openSet := pq', inOpenSet := (inOpenSet st)(u := False),
                localStats := (localStats st)
                  \<lparr>nodesExplored := nodesExplored (localStats st) + 1,
                   nodesInOpenSet := int (pq_size pq')\<rparr>\<rparr>)"
    and g2: "u \<noteq> t \<Longrightarrow> astar_iter g cfg s t st =
        Inr (for_loop 0 (edgeCounts g u) (relax_edge g cfg t u)
               (st\<lparr>openSet := pq', inOpenSet := (inOpenSet st)(u := False),
                   localStats := (localStats st)
                     \<lparr>nodesExplored := nodesExplored (localStats st) + 1\<rparr>,
                   inClosedSet := (inClosedSet st)(u := True)\<rparr>))"
    and pop: "pq_pop (openSet st) = Some (u, pq_fScore (pq_nodes (openSet st) 0), pq')"
    by blast
  let ?st2 = "st\<lparr>openSet := pq', inOpenSet := (inOpenSet st)(u := False),
                   localStats := (localStats st)
                     \<lparr>nodesExplored := nodesExplored (localStats st) + 1\<rparr>,
                   inClosedSet := (inClosedSet st)(u := True)\<rparr>"
  have ut: "u \<noteq> t" using g1 it by auto
  then have st': "st' = for_loop 0 (edgeCounts g u) (relax_edge g cfg t u) ?st2"
    using g2 it by simp
  have s2: "astar_struct g ?st2"
    using a by (intro close_node_struct [OF str]) (auto simp: a(1))
  have "heap_scored ?st2 \<and> relax_scores g s t u 0 ?st2"
    by (rule close_node_dijk [OF str hs ds ne a(1,2) ut pop a(8)]) simp_all
  then have "astar_dijk g s t st'"
    unfolding st' using s2 wf nn z hw a(4,5) by (intro relax_loop_dijk) simp_all
  moreover have "unclosed g st' < unclosed g st"
    using astar_iter_struct [OF str wf ne it] by simp
  ultimately show ?thesis by simp
qed

text \<open>With the queue empty, every path from the start to a node not closed costs at least \<open>FLT_MAX\<close>.\<close>

lemma empty_queue_unreachable:
  assumes inv: "astar_dijk g s t st" and wf: "graph_wf g" and nn: "nonneg_weights g"
    and s: "0 \<le> s" "s < nodeCount g"
    and em: "pq_empty (openSet st)"
    and w: "walk g s (Fin 0) js = Some (t, c)"
  shows "Fin FLT_MAX \<le> c"
proof -
  from inv have str: "astar_struct g st" and ds: "dijk_scores g s t st"
    by (simp_all add: astar_dijk_def)
  note sd = astar_structD [OF str] and dd = dijk_scoresD [OF ds]
  have no_open: "\<not> inOpenSet st v" for v
    using em sd(3) by (simp add: pq_empty_def pq_ids_def pq_list_def)
  have "(inClosedSet st t \<longrightarrow> gScore st t \<le> c) \<and> (\<not> inClosedSet st t \<longrightarrow> Fin FLT_MAX \<le> c)"
  proof (rule path_lower_bound [where gs = "gScore st" and cl = "inClosedSet st"
        and m = "Fin FLT_MAX", OF wf nn s dd(2) _ _ _ _ w])
    fix x j assume "inClosedSet st x" "edge_ok g x j"
    then show "gScore st (to_e (edges g x j)) \<le> fadd (gScore st x) (weight (edges g x j))"
      by (rule dd(7))
  next
    fix x assume "inClosedSet st x"
    then show "is_cost (gScore st x)" using dd(4) sd(5) by blast
  next
    fix x assume "inClosedSet st x"
    then show "gScore st x \<le> Fin FLT_MAX" using dd(4) sd(5) by blast
  next
    fix v assume v: "0 \<le> v" "v < nodeCount g" "\<not> inClosedSet st v"
    then have "\<not> gScore st v < Fin FLT_MAX" using dd(5) [OF v(1,2)] no_open by simp
    then show "Fin FLT_MAX \<le> gScore st v" by auto
  qed
  then show ?thesis using dd(1) by simp
qed

text \<open>When the goal is popped, its score is the least cost of a path, and the path is found.\<close>

lemma goal_popped:
  assumes inv: "astar_dijk g s t st" and wf: "graph_wf g" and nn: "nonneg_weights g"
    and s: "0 \<le> s" "s < nodeCount g" and t: "0 \<le> t" "t < nodeCount g"
    and ne: "\<not> pq_empty (openSet st)"
    and it: "astar_iter g cfg s t st = Inl r"
  shows "found (fst r) \<and> totalCost (fst r) = gScore st t
    \<and> (\<exists>js. walk g s (Fin 0) js = Some (t, gScore st t))
    \<and> (\<forall>js c. walk g s (Fin 0) js = Some (t, c) \<longrightarrow> fle (gScore st t) c)"
proof -
  from inv have str: "astar_struct g st" and hs: "heap_scored st" and ds: "dijk_scores g s t st"
    by (simp_all add: astar_dijk_def)
  note sd = astar_structD [OF str] and dd = dijk_scoresD [OF ds]
  from astar_iter_anatomy [OF str ne, of t cfg s] obtain u pq' where
    a: "u = pq_nodeId (pq_nodes (openSet st) 0)" "inOpenSet st u"
    and g1: "u = t \<Longrightarrow> astar_iter g cfg s t st =
        Inl (reconstruct_path (cameFrom st) (gScore st) s t (nodeCount g),
             st\<lparr>openSet := pq', inOpenSet := (inOpenSet st)(u := False),
                localStats := (localStats st)
                  \<lparr>nodesExplored := nodesExplored (localStats st) + 1,
                   nodesInOpenSet := int (pq_size pq')\<rparr>\<rparr>)"
    and g2: "u \<noteq> t \<Longrightarrow> astar_iter g cfg s t st =
        Inr (for_loop 0 (edgeCounts g u) (relax_edge g cfg t u)
               (st\<lparr>openSet := pq', inOpenSet := (inOpenSet st)(u := False),
                   localStats := (localStats st)
                     \<lparr>nodesExplored := nodesExplored (localStats st) + 1\<rparr>,
                   inClosedSet := (inClosedSet st)(u := True)\<rparr>))"
    by blast
  have ut: "u = t" using g2 it by auto
  then have r: "fst r = reconstruct_path (cameFrom st) (gScore st) s t (nodeCount g)"
    using g1 it by auto
  have topen: "inOpenSet st t" using a(2) ut by simp
  let ?C = "{x. inClosedSet st x}"
  have fin: "finite ?C" using closed_finite [OF str] .
  have cnt: "fst (count_path (cameFrom st) s (nodeCount g) t 0) = s"
  proof (cases "t = s")
    case True
    then show ?thesis by (subst count_path.simps) simp
  next
    case False
    let ?cl = "\<lambda>v. inClosedSet st v \<or> v = t"
    have px: "inClosedSet st (cameFrom st t)" using dd(10) [OF topen False] .
    then have "card ?C \<noteq> 0" using fin by auto
    then obtain k where k: "card ?C = Suc k" by (cases "card ?C") auto
    have "chain (cameFrom st) ?cl s k (cameFrom st t)"
      using chain_mono [OF dd(9) [OF px], of k ?cl] k by simp
    then have c: "chain (cameFrom st) ?cl s (Suc k) t" by simp
    have "?C \<subseteq> {0..<nodeCount g} - {t}" using sd(5) dd(1) by auto
    then have "card ?C \<le> card ({0..<nodeCount g} - {t})" by (intro card_mono) auto
    also have "\<dots> = nat (nodeCount g) - 1" using t by simp
    finally have "int (Suc k) < nodeCount g" using k t by simp
    moreover have "x \<noteq> - 1" if "?cl x" for x
      using sd(5) [of x] that t by auto
    ultimately show ?thesis
      by (intro count_path_chain [OF c]) auto
  qed
  have least: "fle (gScore st t) c" if w: "walk g s (Fin 0) js = Some (t, c)" for js c
  proof -
    have "is_cost c" using walk_cost_mono [OF nn is_cost_zero w] by simp
    then have nc: "c \<noteq> NaN" by (rule is_cost_number)
    have "is_cost (gScore st t)" using dd(4) [OF t] by simp
    then have nt: "gScore st t \<noteq> NaN" by (rule is_cost_number)
    have "(inClosedSet st t \<longrightarrow> gScore st t \<le> c) \<and> (\<not> inClosedSet st t \<longrightarrow> gScore st t \<le> c)"
    proof (rule path_lower_bound [where gs = "gScore st" and cl = "inClosedSet st"
        and m = "gScore st t", OF wf nn s dd(2) _ _ _ _ w])
      fix x j assume "inClosedSet st x" "edge_ok g x j"
      then show "gScore st (to_e (edges g x j)) \<le> fadd (gScore st x) (weight (edges g x j))"
        by (rule dd(7))
    next
      fix x assume "inClosedSet st x"
      then show "is_cost (gScore st x)" using dd(4) sd(5) by blast
    next
      fix x assume "inClosedSet st x"
      then show "gScore st x \<le> gScore st t" using dd(8) [OF _ t dd(1)] by simp
    next
      fix v assume v: "0 \<le> v" "v < nodeCount g" "\<not> inClosedSet st v"
      show "gScore st t \<le> gScore st v"
        using root_least_unclosed [OF str hs ds ne a(1) v] ut by simp
    qed
    then have "gScore st t \<le> c" by blast
    then show ?thesis using nc nt by (simp add: fle_iff)
  qed
  show ?thesis
    using reconstruct_path_found [OF cnt, of "gScore st"] dd(6) topen least
    unfolding r by blast
qed

text \<open>
  Claim C1, as amended. On a well-formed graph whose weights are not negative, with the
  zero heuristic and a finite heuristic weight, for in-range ids \<open>s\<close> and \<open>t\<close> joined by
  a path of active edges through active nodes whose cost, the sum of its weights added
  in path order in single precision, is less than \<open>FLT_MAX\<close>, the search returns,
  reports a found path, and its total cost is the cost of a path from \<open>s\<close> to \<open>t\<close> and is
  at most the cost of every such path: it is the minimum. The comparisons are those of
  C.
\<close>

theorem dijkstra_shortest_path:
  assumes wf: "graph_wf g" and nn: "nonneg_weights g"
    and s: "0 \<le> s" "s < nodeCount g" and t: "0 \<le> t" "t < nodeCount g"
    and z: "heuristic cfg = HEURISTIC_ZERO" and hw: "heuristicWeight cfg = Fin hw"
    and p: "walk g s (Fin 0) js = Some (t, c)" and c: "flt c (Fin FLT_MAX)"
  shows "\<exists>r stats calls. astar_find_path g s t (Some cfg) = Some (r, Some stats, calls)
           \<and> found r
           \<and> (\<exists>js'. walk g s (Fin 0) js' = Some (t, totalCost r))
           \<and> (\<forall>js' c'. walk g s (Fin 0) js' = Some (t, c') \<longrightarrow> fle (totalCost r) c')"
proof -
  let ?Q = "\<lambda>r. found (fst r)
      \<and> (\<exists>js'. walk g s (Fin 0) js' = Some (t, totalCost (fst r)))
      \<and> (\<forall>js' c'. walk g s (Fin 0) js' = Some (t, c') \<longrightarrow> fle (totalCost (fst r)) c')"
  have "\<exists>r. astar_loop g cfg s t (astar_init g cfg s t) = Some r \<and> ?Q r"
  proof (rule astar_loop_total [where I = "astar_dijk g s t"])
    show "astar_dijk g s t (astar_init g cfg s t)" using s z hw by (rule astar_init_dijk)
  next
    fix st st'
    assume "astar_dijk g s t st" "\<not> pq_empty (openSet st)" "astar_iter g cfg s t st = Inr st'"
    then show "astar_dijk g s t st' \<and> unclosed g st' < unclosed g st"
      using astar_iter_dijk [OF _ wf nn z hw] by blast
  next
    fix st assume "astar_dijk g s t st" "pq_empty (openSet st)"
    from empty_queue_unreachable [OF this(1) wf nn s this(2) p] c
    show "?Q (path_result_create, st)" by (auto simp: flt_iff)
  next
    fix st r
    assume "astar_dijk g s t st" "\<not> pq_empty (openSet st)" "astar_iter g cfg s t st = Inl r"
    from goal_popped [OF this(1) wf nn s t this(2,3)]
    show "?Q r" by simp
  qed
  then obtain r where "astar_loop g cfg s t (astar_init g cfg s t) = Some r" "?Q r" by blast
  then show ?thesis using s t
    by (cases r) (simp add: astar_find_path_def Let_def)
qed

lemma abc_graph_nonneg: "nonneg_weights abc_graph"
  unfolding nonneg_weights_def
proof (intro allI impI)
  fix u j
  assume a: "edge_ok abc_graph u j"
  have n: "nodeCount abc_graph = 3" by (simp add: graph_eval)
  have c: "edgeCounts abc_graph 0 = 2" "edgeCounts abc_graph 1 = 1" "edgeCounts abc_graph 2 = 0"
    by (simp_all add: graph_eval)
  have "u = 0 \<or> u = 1 \<or> u = 2" using a n by (auto simp: edge_ok_def)
  then have "(u = 0 \<and> (j = 0 \<or> j = 1)) \<or> (u = 1 \<and> j = 0)"
    using a c by (auto simp: edge_ok_def)
  then show "fle (Fin 0) (weight (edges abc_graph u j))"
    by (auto simp: graph_eval)
qed

theorem dijkstra_shortest_path_witness:
  "graph_wf abc_graph \<and> nonneg_weights abc_graph
   \<and> (0::int) \<le> 0 \<and> 0 < nodeCount abc_graph \<and> (0::int) \<le> 2 \<and> 2 < nodeCount abc_graph
   \<and> heuristic zero_config = HEURISTIC_ZERO \<and> heuristicWeight zero_config = Fin 1
   \<and> walk abc_graph 0 (Fin 0) [0, 0] = Some (2, Fin 20) \<and> flt (Fin 20) (Fin FLT_MAX)
   \<and> walk abc_graph 0 (Fin 0) [1] = Some (2, Fin 30)
   \<and> (\<exists>r stats calls. astar_find_path abc_graph 0 2 (Some zero_config)
          = Some (r, Some stats, calls)
        \<and> found r \<and> fle (totalCost r) (Fin 20) \<and> fle (totalCost r) (Fin 30))"
proof -
  have h: "(0::int) \<le> 0" "0 < nodeCount abc_graph" "(0::int) \<le> 2" "2 < nodeCount abc_graph"
    by (simp_all add: graph_eval)
  have z: "heuristic zero_config = HEURISTIC_ZERO" "heuristicWeight zero_config = Fin 1"
    by (simp_all add: zero_config_def)
  have p: "walk abc_graph 0 (Fin 0) [0, 0] = Some (2, Fin 20)"
    "walk abc_graph 0 (Fin 0) [1] = Some (2, Fin 30)"
    by (simp_all add: edge_ok_def graph_eval round_f32_int)
  have c: "flt (Fin 20) (Fin FLT_MAX)" by (simp add: FLT_MAX_def)
  from dijkstra_shortest_path [OF abc_graph_wf abc_graph_nonneg h z p(1) c]
  obtain r stats calls where
    r: "astar_find_path abc_graph 0 2 (Some zero_config) = Some (r, Some stats, calls)"
    "found r"
    "\<forall>js' c'. walk abc_graph 0 (Fin 0) js' = Some (2, c') \<longrightarrow> fle (totalCost r) c'"
    by blast
  have "fle (totalCost r) (Fin 20)" "fle (totalCost r) (Fin 30)" using r(3) p by blast+
  then show ?thesis using abc_graph_wf abc_graph_nonneg h z p c r(1,2) by simp
qed

text \<open>
  The claim as stated fails in four ways. In the first graph node 0 and node 3 are
  active and the path 0 \<rightarrow> 2 \<rightarrow> 1 \<rightarrow> 3 costs 7, but the search returns the cost 11: an
  edge of negative weight leads into a node already closed. In the second the path
  0 \<rightarrow> 1 exists, with the cost \<open>FLT_MAX\<close>, but the search returns not found. In the third
  the only path has the weights \<open>2 ^ 24\<close> and 1, whose sum is \<open>2 ^ 24 + 1\<close>, and the
  search returns the cost \<open>2 ^ 24\<close>, the sum in single precision. In the fourth the
  heuristic weight is infinite, which makes every key of the queue NaN: the path
  0 \<rightarrow> 2 \<rightarrow> 1 costs 2, but the search returns the cost 10.
\<close>

theorem dijkstra_counterexample:
  "active (nodes neg_graph 0) \<and> active (nodes neg_graph 3)
   \<and> walk neg_graph 0 (Fin 0) [1, 0, 0] = Some (3, Fin 7)
   \<and> map_option (found \<circ> fst) (astar_find_path neg_graph 0 3 (Some zero_config)) = Some True
   \<and> map_option (totalCost \<circ> fst) (astar_find_path neg_graph 0 3 (Some zero_config))
        = Some (Fin 11)
   \<and> active (nodes far_graph 0) \<and> active (nodes far_graph 1)
   \<and> walk far_graph 0 (Fin 0) [0] = Some (1, Fin FLT_MAX)
   \<and> map_option (found \<circ> fst) (astar_find_path far_graph 0 1 (Some zero_config))
        = Some False
   \<and> weight (edges big_graph 0 0) = Fin 16777216 \<and> weight (edges big_graph 1 0) = Fin 1
   \<and> walk big_graph 0 (Fin 0) [0, 0] = Some (2, Fin 16777216)
   \<and> map_option (totalCost \<circ> fst) (astar_find_path big_graph 0 2 (Some zero_config))
        = Some (Fin 16777216)
   \<and> heuristic inf_config = HEURISTIC_ZERO
   \<and> walk detour_graph 0 (Fin 0) [1, 0] = Some (1, Fin 2)
   \<and> map_option (found \<circ> fst) (astar_find_path detour_graph 0 1 (Some inf_config))
        = Some True
   \<and> map_option (totalCost \<circ> fst) (astar_find_path detour_graph 0 1 (Some inf_config))
        = Some (Fin 10)"
proof -
  have neg: "active (nodes neg_graph 0) \<and> active (nodes neg_graph 3)
   \<and> walk neg_graph 0 (Fin 0) [1, 0, 0] = Some (3, Fin 7)
   \<and> map_option (found \<circ> fst) (astar_find_path neg_graph 0 3 (Some zero_config)) = Some True
   \<and> map_option (totalCost \<circ> fst) (astar_find_path neg_graph 0 3 (Some zero_config))
        = Some (Fin 11)"
    by (simp add: astar_eval pq_eval graph_eval neg_nodes_def neg_graph_def edge_ok_def)
  have far: "active (nodes far_graph 0) \<and> active (nodes far_graph 1)
   \<and> walk far_graph 0 (Fin 0) [0] = Some (1, Fin FLT_MAX)
   \<and> map_option (found \<circ> fst) (astar_find_path far_graph 0 1 (Some zero_config))
        = Some False"
    by (simp add: astar_eval pq_eval graph_eval far_graph_def edge_ok_def)
  have big: "weight (edges big_graph 0 0) = Fin 16777216 \<and> weight (edges big_graph 1 0) = Fin 1
   \<and> walk big_graph 0 (Fin 0) [0, 0] = Some (2, Fin 16777216)
   \<and> map_option (totalCost \<circ> fst) (astar_find_path big_graph 0 2 (Some zero_config))
        = Some (Fin 16777216)"
    by (simp add: astar_eval pq_eval graph_eval big_graph_def edge_ok_def round_f32_tie)
  have det: "heuristic inf_config = HEURISTIC_ZERO
   \<and> walk detour_graph 0 (Fin 0) [1, 0] = Some (1, Fin 2)
   \<and> map_option (found \<circ> fst) (astar_find_path detour_graph 0 1 (Some inf_config))
        = Some True
   \<and> map_option (totalCost \<circ> fst) (astar_find_path detour_graph 0 1 (Some inf_config))
        = Some (Fin 10)"
    by (simp add: astar_eval pq_eval graph_eval detour_graph_def inf_config_def edge_ok_def)
  from neg far big det show ?thesis by blast
qed

end
